theory Spec2Isabelle
  imports Main
begin

section \<open>NovaScript compiler: lexer, parser, code generator\<close>

text \<open>
  A shallow embedding of \<^verbatim>\<open>compiler.py\<close>.  Python objects with mutable fields are
  records that are passed in and returned updated; every \<^verbatim>\<open>raise\<close> is an \<open>Inl\<close>
  result.  Source characters are Isabelle characters, that is the code points 0 to 255;
  the character classes are Python's \<^verbatim>\<open>str\<close> predicates on that range.  The interpreter's
  recursion limit is not modelled: recursion depth is unbounded here.
\<close>

subsection \<open>Python text helpers\<close>

text \<open>\<^verbatim>\<open>str(n)\<close> for a non-negative integer.\<close>

function str_nat :: "nat \<Rightarrow> string" where
  "str_nat n =
     (if n < 10 then [char_of (48 + n)]
      else str_nat (n div 10) @ [char_of (48 + n mod 10)])"
  by pat_completeness auto
termination
  by (relation "measure id") auto

declare str_nat.simps [simp del]

text \<open>\<^verbatim>\<open>sep.join(xs)\<close>.\<close>

fun join :: "string \<Rightarrow> string list \<Rightarrow> string" where
  "join sep [] = []"
| "join sep [x] = x"
| "join sep (x # y # ys) = x @ sep @ join sep (y # ys)"

definition code_of :: "char \<Rightarrow> nat" where
  "code_of c = of_char c"

definition isspace :: "char \<Rightarrow> bool" where
  "isspace c =
     (let n = code_of c
      in (9 \<le> n \<and> n \<le> 13) \<or> (28 \<le> n \<and> n \<le> 32) \<or> n = 133 \<or> n = 160)"

definition isdigit :: "char \<Rightarrow> bool" where
  "isdigit c =
     (let n = code_of c
      in (48 \<le> n \<and> n \<le> 57) \<or> n = 178 \<or> n = 179 \<or> n = 185)"

definition isalpha :: "char \<Rightarrow> bool" where
  "isalpha c =
     (let n = code_of c
      in (65 \<le> n \<and> n \<le> 90) \<or> (97 \<le> n \<and> n \<le> 122) \<or> n = 170 \<or> n = 181 \<or> n = 186
         \<or> (192 \<le> n \<and> n \<le> 214) \<or> (216 \<le> n \<and> n \<le> 246) \<or> (248 \<le> n \<and> n \<le> 255))"

definition isalnum :: "char \<Rightarrow> bool" where
  "isalnum c =
     (let n = code_of c
      in isalpha c \<or> isdigit c \<or> n = 188 \<or> n = 189 \<or> n = 190)"

text \<open>
  \<^verbatim>\<open>s.upper()\<close> on the letters a to z.  The parser only compares the result with
  \<^verbatim>\<open>DESCRIPTION\<close>, \<^verbatim>\<open>AUTHOR\<close> and \<^verbatim>\<open>DATE\<close>; among the code points below 256 the only
  other one whose upper case is made of ASCII letters is 223, which becomes \<^verbatim>\<open>SS\<close>, and
  none of the three keys contains \<^verbatim>\<open>SS\<close>, so the comparisons come out as in Python.
\<close>

definition upper_char :: "char \<Rightarrow> char" where
  "upper_char c =
     (let n = code_of c in if 97 \<le> n \<and> n \<le> 122 then char_of (n - 32) else c)"

definition upper :: "string \<Rightarrow> string" where
  "upper s = map upper_char s"

subsection \<open>Tokens\<close>

datatype TokenType =
    PROGRAM | BEGIN | END | FUNC | RETURN | IF | THEN | ELSE | WHILE | FOR | DO | IN
  | CLASS | TRY | EXCEPT | USE | DISPLAY
  | NUM | STR_TYPE | BOOL | LIST
  | NUMBER | STRING | TRUE | FALSE
  | PLUS | MINUS | MULTIPLY | DIVIDE | ASSIGN | EQUALS | NOT_EQUALS | GREATER | LESS
  | GREATER_EQUAL | LESS_EQUAL
  | LPAREN | RPAREN | LBRACKET | RBRACKET | COMMA | DOT | COLON
  | IDENTIFIER | COMMENT | EOF

text \<open>\<^verbatim>\<open>str(t)\<close> for a member of the enumeration.  The member \<^verbatim>\<open>STR\<close> is written \<open>STR_TYPE\<close> here, \<open>STR\<close> being taken by the notation for string literals.\<close>

fun member_name :: "TokenType \<Rightarrow> string" where
  "member_name PROGRAM = ''PROGRAM''" | "member_name BEGIN = ''BEGIN''"
| "member_name END = ''END''" | "member_name FUNC = ''FUNC''"
| "member_name RETURN = ''RETURN''" | "member_name IF = ''IF''"
| "member_name THEN = ''THEN''" | "member_name ELSE = ''ELSE''"
| "member_name WHILE = ''WHILE''" | "member_name FOR = ''FOR''"
| "member_name DO = ''DO''" | "member_name IN = ''IN''"
| "member_name CLASS = ''CLASS''" | "member_name TRY = ''TRY''"
| "member_name EXCEPT = ''EXCEPT''" | "member_name USE = ''USE''"
| "member_name DISPLAY = ''DISPLAY''" | "member_name NUM = ''NUM''"
| "member_name STR_TYPE = ''STR''" | "member_name BOOL = ''BOOL''"
| "member_name LIST = ''LIST''" | "member_name NUMBER = ''NUMBER''"
| "member_name STRING = ''STRING''" | "member_name TRUE = ''TRUE''"
| "member_name FALSE = ''FALSE''" | "member_name PLUS = ''PLUS''"
| "member_name MINUS = ''MINUS''" | "member_name MULTIPLY = ''MULTIPLY''"
| "member_name DIVIDE = ''DIVIDE''" | "member_name ASSIGN = ''ASSIGN''"
| "member_name EQUALS = ''EQUALS''" | "member_name NOT_EQUALS = ''NOT_EQUALS''"
| "member_name GREATER = ''GREATER''" | "member_name LESS = ''LESS''"
| "member_name GREATER_EQUAL = ''GREATER_EQUAL''"
| "member_name LESS_EQUAL = ''LESS_EQUAL''"
| "member_name LPAREN = ''LPAREN''" | "member_name RPAREN = ''RPAREN''"
| "member_name LBRACKET = ''LBRACKET''" | "member_name RBRACKET = ''RBRACKET''"
| "member_name COMMA = ''COMMA''" | "member_name DOT = ''DOT''"
| "member_name COLON = ''COLON''" | "member_name IDENTIFIER = ''IDENTIFIER''"
| "member_name COMMENT = ''COMMENT''" | "member_name EOF = ''EOF''"

definition str_TokenType :: "TokenType \<Rightarrow> string" where
  "str_TokenType t = ''TokenType.'' @ member_name t"

record Token =
  tok_type :: TokenType
  tok_value :: string
  tok_line :: nat
  tok_column :: nat

definition mk_Token :: "TokenType \<Rightarrow> string \<Rightarrow> nat \<Rightarrow> nat \<Rightarrow> Token" where
  "mk_Token t v l c = \<lparr>tok_type = t, tok_value = v, tok_line = l, tok_column = c\<rparr>"

subsection \<open>Errors\<close>

text \<open>
  The exceptions the pipeline can raise: \<^verbatim>\<open>SyntaxError\<close> from the lexer and the parser,
  \<^verbatim>\<open>ValueError\<close> from \<^verbatim>\<open>float\<close>, \<^verbatim>\<open>KeyError\<close> from the operator table and the plain
  \<^verbatim>\<open>Exception\<close> of \<^verbatim>\<open>generic_visit\<close>.
\<close>

datatype error =
    SyntaxError string
  | ValueError string
  | KeyError TokenType
  | Exception string

definition bindE :: "error + 'a \<Rightarrow> ('a \<Rightarrow> error + 'b) \<Rightarrow> error + 'b" where
  "bindE m f = (case m of Inl e \<Rightarrow> Inl e | Inr x \<Rightarrow> f x)"

lemma bindE_cong [fundef_cong]:
  "m = m' \<Longrightarrow> (\<And>x. m' = Inr x \<Longrightarrow> f x = f' x) \<Longrightarrow> bindE m f = bindE m' f'"
  by (simp add: bindE_def split: sum.splits)

subsection \<open>Lexer\<close>

record Lexer =
  source :: string
  pos :: nat
  line :: nat
  column :: nat
  current_char :: "char option"

definition Lexer_init :: "string \<Rightarrow> Lexer" where
  "Lexer_init src =
     \<lparr>source = src, pos = 0, line = 1, column = 1,
      current_char = (if src \<noteq> [] then Some (src ! 0) else None)\<rparr>"

definition keywords_table :: "string \<Rightarrow> TokenType option" where
  "keywords_table = map_of
     [(''PROGRAM'', PROGRAM), (''BEGIN'', BEGIN), (''END'', END), (''func'', FUNC),
      (''return'', RETURN), (''if'', IF), (''then'', THEN), (''else'', ELSE),
      (''while'', WHILE), (''for'', FOR), (''do'', DO), (''in'', IN), (''class'', CLASS),
      (''try'', TRY), (''except'', EXCEPT), (''use'', USE), (''display'', DISPLAY),
      (''num'', NUM), (''str'', STR_TYPE), (''bool'', BOOL), (''list'', LIST),
      (''true'', TRUE), (''false'', FALSE)]"

definition advance :: "Lexer \<Rightarrow> Lexer" where
  "advance lx =
     (let p = pos lx + 1
      in lx\<lparr>pos := p, column := column lx + 1,
             current_char := (if p < length (source lx) then Some (source lx ! p) else None)\<rparr>)"

definition peek :: "Lexer \<Rightarrow> char option" where
  "peek lx =
     (let peek_pos = pos lx + 1
      in if peek_pos < length (source lx) then Some (source lx ! peek_pos) else None)"

text \<open>
  The lexer's loops all stop because \<^verbatim>\<open>advance\<close> moves the cursor towards the end of the
  source, where \<^verbatim>\<open>current_char\<close> becomes \<^verbatim>\<open>None\<close>.
\<close>

definition chars_left :: "Lexer \<Rightarrow> nat" where
  "chars_left lx =
     (length (source lx) - pos lx) + (case current_char lx of None \<Rightarrow> 0 | Some _ \<Rightarrow> 1)"

lemma chars_left_advance:
  "current_char lx = Some c \<Longrightarrow> chars_left (advance lx) < chars_left lx"
  by (auto simp: chars_left_def advance_def Let_def)

lemma chars_left_line_column [simp]:
  "chars_left (lx\<lparr>line := l, column := k\<rparr>) = chars_left lx"
  by (simp add: chars_left_def)

lemma chars_left_advance_newline:
  "current_char lx = Some c \<Longrightarrow>
   chars_left (advance (lx\<lparr>line := l, column := k\<rparr>)) < chars_left lx"
  using chars_left_advance [of "lx\<lparr>line := l, column := k\<rparr>" c] by simp

function skip_whitespace :: "Lexer \<Rightarrow> Lexer" where
  "skip_whitespace lx =
     (case current_char lx of
        None \<Rightarrow> lx
      | Some c \<Rightarrow>
          if isspace c
          then skip_whitespace
                 (advance (if c = CHR ''\<newline>'' then lx\<lparr>line := line lx + 1, column := 0\<rparr> else lx))
          else lx)"
  by pat_completeness auto
termination
  by (relation "measure chars_left") (auto simp: chars_left_advance chars_left_advance_newline)

function read_number_loop :: "string \<Rightarrow> Lexer \<Rightarrow> string \<times> Lexer" where
  "read_number_loop result lx =
     (case current_char lx of
        None \<Rightarrow> (result, lx)
      | Some c \<Rightarrow>
          if isdigit c \<or> c = CHR ''.''
          then read_number_loop (result @ [c]) (advance lx)
          else (result, lx))"
  by pat_completeness auto
termination
  by (relation "measure (\<lambda>(result, lx). chars_left lx)") (auto simp: chars_left_advance chars_left_advance_newline)

definition read_number :: "Lexer \<Rightarrow> Token \<times> Lexer" where
  "read_number lx =
     (let start_column = column lx;
          (result, lx') = read_number_loop [] lx
      in (mk_Token NUMBER result (line lx') start_column, lx'))"

function read_identifier_loop :: "string \<Rightarrow> Lexer \<Rightarrow> string \<times> Lexer" where
  "read_identifier_loop result lx =
     (case current_char lx of
        None \<Rightarrow> (result, lx)
      | Some c \<Rightarrow>
          if isalnum c \<or> c = CHR ''_''
          then read_identifier_loop (result @ [c]) (advance lx)
          else (result, lx))"
  by pat_completeness auto
termination
  by (relation "measure (\<lambda>(result, lx). chars_left lx)") (auto simp: chars_left_advance chars_left_advance_newline)

definition read_identifier :: "Lexer \<Rightarrow> Token \<times> Lexer" where
  "read_identifier lx =
     (let start_column = column lx;
          (result, lx') = read_identifier_loop [] lx;
          token_type = (case keywords_table result of None \<Rightarrow> IDENTIFIER | Some t \<Rightarrow> t)
      in (mk_Token token_type result (line lx') start_column, lx'))"

function read_string_loop :: "string \<Rightarrow> Lexer \<Rightarrow> string \<times> Lexer" where
  "read_string_loop result lx =
     (case current_char lx of
        None \<Rightarrow> (result, lx)
      | Some c \<Rightarrow>
          if c \<noteq> CHR 0x22
          then read_string_loop (result @ [c]) (advance lx)
          else (result, lx))"
  by pat_completeness auto
termination
  by (relation "measure (\<lambda>(result, lx). chars_left lx)") (auto simp: chars_left_advance chars_left_advance_newline)

definition read_string :: "Lexer \<Rightarrow> Token \<times> Lexer" where
  "read_string lx =
     (let start_column = column lx;
          (result, lx1) = read_string_loop [] (advance lx);
          lx2 = (if current_char lx1 = Some (CHR 0x22) then advance lx1 else lx1)
      in (mk_Token STRING result (line lx2) start_column, lx2))"

function line_comment_loop :: "string \<Rightarrow> Lexer \<Rightarrow> string \<times> Lexer" where
  "line_comment_loop comment lx =
     (case current_char lx of
        None \<Rightarrow> (comment, lx)
      | Some c \<Rightarrow>
          if c \<noteq> CHR ''\<newline>''
          then line_comment_loop (comment @ [c]) (advance lx)
          else (comment, lx))"
  by pat_completeness auto
termination
  by (relation "measure (\<lambda>(comment, lx). chars_left lx)") (auto simp: chars_left_advance chars_left_advance_newline)

function block_comment_loop :: "string \<Rightarrow> Lexer \<Rightarrow> string \<times> Lexer" where
  "block_comment_loop comment lx =
     (case current_char lx of
        None \<Rightarrow> (comment, lx)
      | Some c \<Rightarrow>
          if c = CHR ''*'' \<and> peek lx = Some (CHR ''/'')
          then (comment, advance (advance lx))
          else block_comment_loop (comment @ [c])
                 (advance (if c = CHR ''\<newline>'' then lx\<lparr>line := line lx + 1, column := 0\<rparr> else lx)))"
  by pat_completeness auto
termination
  by (relation "measure (\<lambda>(comment, lx). chars_left lx)") (auto simp: chars_left_advance chars_left_advance_newline)

definition read_comment :: "Lexer \<Rightarrow> Token option \<times> Lexer" where
  "read_comment lx =
     (if current_char lx = Some (CHR ''#'') then
        (let start_column = column lx;
             (comment, lx') = line_comment_loop [] lx
         in (Some (mk_Token COMMENT comment (line lx') start_column), lx'))
      else if current_char lx = Some (CHR ''/'') \<and> peek lx = Some (CHR ''*'') then
        (let start_column = column lx;
             (comment, lx') = block_comment_loop [] (advance (advance lx))
         in (Some (mk_Token COMMENT comment (line lx') start_column), lx'))
      else (None, lx))"

declare skip_whitespace.simps [simp del] read_number_loop.simps [simp del]
  read_identifier_loop.simps [simp del] read_string_loop.simps [simp del]
  line_comment_loop.simps [simp del] block_comment_loop.simps [simp del]

lemma chars_left_skip_whitespace: "chars_left (skip_whitespace lx) \<le> chars_left lx"
proof (induction lx rule: skip_whitespace.induct)
  case (1 lx)
  show ?case
  proof (cases "current_char lx")
    case None
    then show ?thesis by (simp add: skip_whitespace.simps [of lx])
  next
    case (Some c)
    show ?thesis
    proof (cases "isspace c")
      case False
      with Some show ?thesis by (simp add: skip_whitespace.simps [of lx])
    next
      case True
      have "chars_left (skip_whitespace lx)
              \<le> chars_left (advance (if c = CHR ''\<newline>''
                    then lx\<lparr>line := line lx + 1, column := 0\<rparr> else lx))"
        using "1.IH" [OF Some True] Some True by (simp add: skip_whitespace.simps [of lx])
      also have "\<dots> < chars_left lx"
        using Some by (simp add: chars_left_advance chars_left_advance_newline)
      finally show ?thesis by simp
    qed
  qed
qed

lemma chars_left_skip_whitespace_less:
  assumes "current_char lx = Some c" and "isspace c"
  shows "chars_left (skip_whitespace lx) < chars_left lx"
proof -
  have "chars_left (skip_whitespace lx)
          \<le> chars_left (advance (if c = CHR ''\<newline>''
                then lx\<lparr>line := line lx + 1, column := 0\<rparr> else lx))"
    using assms chars_left_skip_whitespace by (simp add: skip_whitespace.simps [of lx])
  also have "\<dots> < chars_left lx"
    using assms by (simp add: chars_left_advance chars_left_advance_newline)
  finally show ?thesis .
qed

definition invalid_character :: "char \<Rightarrow> Lexer \<Rightarrow> error" where
  "invalid_character c lx =
     SyntaxError (''Invalid character '' @ [CHR 0x27, c, CHR 0x27] @ '' at line ''
                  @ str_nat (line lx) @ '', column '' @ str_nat (column lx))"

function get_next_token :: "Lexer \<Rightarrow> error + Token \<times> Lexer" where
  "get_next_token lx =
     (case current_char lx of
        None \<Rightarrow> Inr (mk_Token EOF [] (line lx) (column lx), lx)
      | Some c \<Rightarrow>
          if isspace c then get_next_token (skip_whitespace lx)
          else
            (case read_comment lx of
               (Some comment_token, lx') \<Rightarrow> Inr (comment_token, lx')
             | (None, lx') \<Rightarrow>
                 if isdigit c then Inr (read_number lx')
                 else if isalpha c \<or> c = CHR ''_'' then Inr (read_identifier lx')
                 else if c = CHR 0x22 then Inr (read_string lx')
                 else if c = CHR ''+'' then
                   Inr (mk_Token PLUS ''+'' (line lx') (column lx'), advance lx')
                 else if c = CHR ''-'' then
                   Inr (mk_Token MINUS ''-'' (line lx') (column lx'), advance lx')
                 else if c = CHR ''*'' then
                   Inr (mk_Token MULTIPLY ''*'' (line lx') (column lx'), advance lx')
                 else if c = CHR ''/'' then
                   Inr (mk_Token DIVIDE ''/'' (line lx') (column lx'), advance lx')
                 else if c = CHR ''='' then
                   (let start_column = column lx';
                        lx1 = advance lx'
                    in if current_char lx1 = Some (CHR ''='')
                       then (let lx2 = advance lx1
                             in Inr (mk_Token EQUALS ''=='' (line lx2) start_column, lx2))
                       else Inr (mk_Token ASSIGN ''='' (line lx1) start_column, lx1))
                 else if c = CHR ''('' then
                   Inr (mk_Token LPAREN ''('' (line lx') (column lx'), advance lx')
                 else if c = CHR '')'' then
                   Inr (mk_Token RPAREN '')'' (line lx') (column lx'), advance lx')
                 else if c = CHR ''['' then
                   Inr (mk_Token LBRACKET ''['' (line lx') (column lx'), advance lx')
                 else if c = CHR '']'' then
                   Inr (mk_Token RBRACKET '']'' (line lx') (column lx'), advance lx')
                 else if c = CHR '','' then
                   Inr (mk_Token COMMA '','' (line lx') (column lx'), advance lx')
                 else if c = CHR ''.'' then
                   Inr (mk_Token DOT ''.'' (line lx') (column lx'), advance lx')
                 else if c = CHR '':'' then
                   Inr (mk_Token COLON '':'' (line lx') (column lx'), advance lx')
                 else Inl (invalid_character c lx')))"
  by pat_completeness auto
termination
  by (relation "measure chars_left") (auto simp: chars_left_skip_whitespace_less)

declare get_next_token.simps [simp del]

text \<open>
  The cursor invariant: \<^verbatim>\<open>current_char\<close> is the character at \<^verbatim>\<open>pos\<close>, or \<^verbatim>\<open>None\<close> past the
  end.  \<^verbatim>\<open>__init__\<close> establishes it and \<^verbatim>\<open>advance\<close> restores it.
\<close>

definition lexer_ok :: "Lexer \<Rightarrow> bool" where
  "lexer_ok lx =
     (current_char lx =
        (if pos lx < length (source lx) then Some (source lx ! pos lx) else None))"

text \<open>Every token other than EOF costs at least one character of the source.\<close>

lemma chars_left_read_number_loop:
  "chars_left (snd (read_number_loop r lx)) \<le> chars_left lx"
proof (induction r lx rule: read_number_loop.induct)
  case (1 result lx)
  show ?case
  proof (cases "current_char lx")
    case None
    then show ?thesis by (simp add: read_number_loop.simps [of result lx])
  next
    case (Some c)
    show ?thesis
    proof (cases "isdigit c \<or> c = CHR ''.''")
      case True
      from "1.IH" [OF Some True] chars_left_advance [OF Some] Some True
      show ?thesis by (simp add: read_number_loop.simps [of result lx])
    next
      case False
      with Some show ?thesis by (simp add: read_number_loop.simps [of result lx])
    qed
  qed
qed

lemma chars_left_read_identifier_loop:
  "chars_left (snd (read_identifier_loop r lx)) \<le> chars_left lx"
proof (induction r lx rule: read_identifier_loop.induct)
  case (1 result lx)
  show ?case
  proof (cases "current_char lx")
    case None
    then show ?thesis by (simp add: read_identifier_loop.simps [of result lx])
  next
    case (Some c)
    show ?thesis
    proof (cases "isalnum c \<or> c = CHR ''_''")
      case True
      from "1.IH" [OF Some True] chars_left_advance [OF Some] Some True
      show ?thesis by (simp add: read_identifier_loop.simps [of result lx])
    next
      case False
      with Some show ?thesis by (simp add: read_identifier_loop.simps [of result lx])
    qed
  qed
qed

lemma chars_left_read_string_loop:
  "chars_left (snd (read_string_loop r lx)) \<le> chars_left lx"
proof (induction r lx rule: read_string_loop.induct)
  case (1 result lx)
  show ?case
  proof (cases "current_char lx")
    case None
    then show ?thesis by (simp add: read_string_loop.simps [of result lx])
  next
    case (Some c)
    show ?thesis
    proof (cases "c \<noteq> CHR 0x22")
      case True
      from "1.IH" [OF Some True] chars_left_advance [OF Some] Some True
      show ?thesis by (simp add: read_string_loop.simps [of result lx])
    next
      case False
      with Some show ?thesis by (simp add: read_string_loop.simps [of result lx])
    qed
  qed
qed

lemma chars_left_line_comment_loop:
  "chars_left (snd (line_comment_loop r lx)) \<le> chars_left lx"
proof (induction r lx rule: line_comment_loop.induct)
  case (1 comment lx)
  show ?case
  proof (cases "current_char lx")
    case None
    then show ?thesis by (simp add: line_comment_loop.simps [of comment lx])
  next
    case (Some c)
    show ?thesis
    proof (cases "c \<noteq> CHR ''\<newline>''")
      case True
      from "1.IH" [OF Some True] chars_left_advance [OF Some] Some True
      show ?thesis by (simp add: line_comment_loop.simps [of comment lx])
    next
      case False
      with Some show ?thesis by (simp add: line_comment_loop.simps [of comment lx])
    qed
  qed
qed

lemma chars_left_advance_le: "chars_left (advance lx) \<le> chars_left lx"
  by (auto simp: chars_left_def advance_def Let_def split: option.splits)

lemma chars_left_block_comment_loop:
  "chars_left (snd (block_comment_loop r lx)) \<le> chars_left lx"
proof (induction r lx rule: block_comment_loop.induct)
  case (1 comment lx)
  show ?case
  proof (cases "current_char lx")
    case None
    then show ?thesis by (simp add: block_comment_loop.simps [of comment lx])
  next
    case (Some c)
    show ?thesis
    proof (cases "c = CHR ''*'' \<and> peek lx = Some (CHR ''/'')")
      case True
      have "chars_left (advance (advance lx)) \<le> chars_left lx"
        using chars_left_advance_le [of "advance lx"] chars_left_advance_le [of lx] by simp
      with Some True show ?thesis by (simp add: block_comment_loop.simps [of comment lx])
    next
      case False
      have "chars_left (advance (if c = CHR ''\<newline>''
                then lx\<lparr>line := line lx + 1, column := 0\<rparr> else lx)) < chars_left lx"
        using Some by (simp add: chars_left_advance chars_left_advance_newline)
      with "1.IH" [OF Some False] Some False
      show ?thesis by (auto simp: block_comment_loop.simps [of comment lx])
    qed
  qed
qed

lemma chars_left_read_number:
  assumes "current_char lx = Some c" and "isdigit c"
  shows "chars_left (snd (read_number lx)) < chars_left lx"
proof -
  have "chars_left (snd (read_number_loop [] lx)) \<le> chars_left (advance lx)"
    using assms chars_left_read_number_loop [of "[c]" "advance lx"]
    by (simp add: read_number_loop.simps [of "[]" lx])
  with chars_left_advance [OF assms(1)] show ?thesis
    by (auto simp: read_number_def Let_def split: prod.splits)
qed

lemma isalpha_isalnum: "isalpha c \<Longrightarrow> isalnum c"
  by (simp add: isalnum_def)

lemma chars_left_read_identifier:
  assumes "current_char lx = Some c" and "isalpha c \<or> c = CHR ''_''"
  shows "chars_left (snd (read_identifier lx)) < chars_left lx"
proof -
  from assms(2) have "isalnum c \<or> c = CHR ''_''" by (auto simp: isalpha_isalnum)
  then have "chars_left (snd (read_identifier_loop [] lx)) \<le> chars_left (advance lx)"
    using assms(1) chars_left_read_identifier_loop [of "[c]" "advance lx"]
    by (simp add: read_identifier_loop.simps [of "[]" lx])
  with chars_left_advance [OF assms(1)] show ?thesis
    by (auto simp: read_identifier_def Let_def split: prod.splits)
qed

lemma chars_left_read_string:
  assumes "current_char lx = Some c"
  shows "chars_left (snd (read_string lx)) < chars_left lx"
proof -
  obtain r lx1 where loop: "read_string_loop [] (advance lx) = (r, lx1)"
    by (cases "read_string_loop [] (advance lx)")
  have "chars_left lx1 \<le> chars_left (advance lx)"
    using chars_left_read_string_loop [of "[]" "advance lx"] loop by simp
  moreover have "chars_left (advance lx1) \<le> chars_left lx1"
    by (rule chars_left_advance_le)
  ultimately show ?thesis
    using chars_left_advance [OF assms] loop by (simp add: read_string_def Let_def)
qed

lemma read_comment_None: "read_comment lx = (None, lx') \<Longrightarrow> lx' = lx"
  by (auto simp: read_comment_def Let_def split: if_splits prod.splits)

lemma chars_left_read_comment:
  assumes "read_comment lx = (Some t, lx')"
  shows "chars_left lx' < chars_left lx \<and> tok_type t = COMMENT"
proof (cases "current_char lx = Some (CHR ''#'')")
  case True
  have "chars_left (snd (line_comment_loop [] lx)) \<le> chars_left (advance lx)"
    using True chars_left_line_comment_loop [of "[CHR ''#'']" "advance lx"]
    by (simp add: line_comment_loop.simps [of "[]" lx])
  with chars_left_advance [OF True] assms True show ?thesis
    by (auto simp: read_comment_def Let_def mk_Token_def split: prod.splits)
next
  case False
  with assms have start: "current_char lx = Some (CHR ''/'')" "peek lx = Some (CHR ''*'')"
    by (auto simp: read_comment_def split: if_splits)
  have "chars_left (snd (block_comment_loop [] (advance (advance lx))))
          \<le> chars_left (advance (advance lx))"
    by (rule chars_left_block_comment_loop)
  moreover have "chars_left (advance (advance lx)) \<le> chars_left (advance lx)"
    by (rule chars_left_advance_le)
  ultimately show ?thesis
    using chars_left_advance [OF start(1)] assms False start
    by (auto simp: read_comment_def Let_def mk_Token_def split: prod.splits)
qed

lemma get_next_token_chars_left:
  "get_next_token lx = Inr (t, lx') \<Longrightarrow>
   chars_left lx' \<le> chars_left lx \<and> (tok_type t \<noteq> EOF \<longrightarrow> chars_left lx' < chars_left lx)"
proof (induction lx rule: get_next_token.induct)
  case (1 lx)
  show ?case
  proof (cases "current_char lx")
    case None
    with "1.prems" show ?thesis
      by (auto simp: get_next_token.simps [of lx] mk_Token_def)
  next
    case (Some c)
    show ?thesis
    proof (cases "isspace c")
      case True
      with Some "1.prems" have "get_next_token (skip_whitespace lx) = Inr (t, lx')"
        by (simp add: get_next_token.simps [of lx])
      from "1.IH" [OF Some True this] chars_left_skip_whitespace_less [OF Some True]
      show ?thesis by auto
    next
      case False
      obtain ct lxc where rc: "read_comment lx = (ct, lxc)"
        by (cases "read_comment lx")
      show ?thesis
      proof (cases ct)
        case (Some tok)
        with rc \<open>current_char lx = Some c\<close> False "1.prems"
        have "t = tok" "lx' = lxc" by (simp_all add: get_next_token.simps [of lx])
        with chars_left_read_comment [of lx tok lxc] rc Some show ?thesis by simp
      next
        case None
        with rc have same: "lxc = lx" by (simp add: read_comment_None)
        have less: "chars_left (advance lx) < chars_left lx"
          by (rule chars_left_advance [OF Some])
        have less2: "chars_left (advance (advance lx)) < chars_left lx"
          using chars_left_advance_le [of "advance lx"] less by simp
        have num: "isdigit c \<Longrightarrow> chars_left (snd (read_number lx)) < chars_left lx"
          by (rule chars_left_read_number [OF Some])
        have ident: "isalpha c \<or> c = CHR ''_'' \<Longrightarrow>
            chars_left (snd (read_identifier lx)) < chars_left lx"
          by (rule chars_left_read_identifier [OF Some])
        have str: "chars_left (snd (read_string lx)) < chars_left lx"
          by (rule chars_left_read_string [OF Some])
        from "1.prems" Some False rc None same
        have "chars_left lx' < chars_left lx"
          using less less2 num ident str
          by (auto simp: get_next_token.simps [of lx] Let_def split: if_splits)
        then show ?thesis by simp
      qed
    qed
  qed
qed

subsection \<open>Floating-point literals\<close>

text \<open>
  The parser turns a NUMBER lexeme into a float with \<^verbatim>\<open>float\<close> and the generator prints it
  back with \<^verbatim>\<open>str\<close>.  A NUMBER lexeme holds only characters of \<open>isdigit\<close> and dots; on
  such a string \<^verbatim>\<open>float\<close> succeeds exactly when every character is a decimal digit or a
  dot, there is at most one dot and at least one digit.  A whole number below \<open>2 ^ 53\<close> is
  a float exactly and prints as its decimal digits followed by \<^verbatim>\<open>.0\<close>.  Every other
  accepted lexeme keeps its text, and its printed form is left to a parameter \<open>fr\<close> of
  the generator (binary rounding and shortest round-trip printing are not modelled).
\<close>

datatype pyfloat = Whole nat | Rounded string

definition decimal_digit :: "char \<Rightarrow> bool" where
  "decimal_digit c = (48 \<le> code_of c \<and> code_of c \<le> 57)"

definition float_literal :: "string \<Rightarrow> bool" where
  "float_literal s =
     (list_all (\<lambda>c. decimal_digit c \<or> c = CHR ''.'') s
      \<and> length (filter (\<lambda>c. c = CHR ''.'') s) \<le> 1
      \<and> list_ex decimal_digit s)"

definition digits_value :: "string \<Rightarrow> nat" where
  "digits_value s = foldl (\<lambda>a c. 10 * a + (code_of c - 48)) 0 s"

definition py_float :: "string \<Rightarrow> error + pyfloat" where
  "py_float s =
     (if float_literal s then
        (let whole = takeWhile (\<lambda>c. c \<noteq> CHR ''.'') s;
             fraction = drop 1 (dropWhile (\<lambda>c. c \<noteq> CHR ''.'') s)
         in if list_all (\<lambda>c. c = CHR ''0'') fraction \<and> digits_value whole < 9007199254740992
            then Inr (Whole (digits_value whole))
            else Inr (Rounded s))
      else Inl (ValueError (''could not convert string to float: ''
                            @ [CHR 0x27] @ s @ [CHR 0x27])))"

definition str_float :: "(string \<Rightarrow> string) \<Rightarrow> pyfloat \<Rightarrow> string" where
  "str_float fr x = (case x of Whole n \<Rightarrow> str_nat n @ ''.0'' | Rounded s \<Rightarrow> fr s)"

subsection \<open>Syntax trees\<close>

text \<open>
  The ten node classes, and \<open>Unhandled\<close> for an instance of \<^verbatim>\<open>ASTNode\<close> itself or of any
  other class without a visitor method (it carries the class name).
\<close>

datatype ASTNode =
    Program "string option" "string option" "string option" "ASTNode list"
  | FunctionDecl string "(string \<times> string option) list" "string option" "ASTNode list"
  | VariableDecl string "string option" ASTNode
  | Assignment string ASTNode
  | BinaryOp ASTNode TokenType ASTNode
  | Number pyfloat
  | String string
  | Boolean bool
  | Identifier string
  | Display ASTNode
  | Unhandled string

text \<open>
  Two observations on a tree: the operator tags of its \<open>BinaryOp\<close> nodes, and the class
  names of its nodes without a visitor.  A tree is \<open>generable\<close> when every operator tag is
  one of the four keys of the generator's operator table and every node has a visitor.
\<close>

fun binary_operators :: "ASTNode \<Rightarrow> TokenType list" where
  "binary_operators (Program description author date body) = concat (map binary_operators body)"
| "binary_operators (FunctionDecl name params return_type body) =
     concat (map binary_operators body)"
| "binary_operators (VariableDecl name var_type v) = binary_operators v"
| "binary_operators (Assignment target v) = binary_operators v"
| "binary_operators (BinaryOp left operator right) =
     operator # binary_operators left @ binary_operators right"
| "binary_operators (Number x) = []"
| "binary_operators (String s) = []"
| "binary_operators (Boolean b) = []"
| "binary_operators (Identifier name) = []"
| "binary_operators (Display v) = binary_operators v"
| "binary_operators (Unhandled cls) = []"

fun unhandled_nodes :: "ASTNode \<Rightarrow> string list" where
  "unhandled_nodes (Program description author date body) = concat (map unhandled_nodes body)"
| "unhandled_nodes (FunctionDecl name params return_type body) =
     concat (map unhandled_nodes body)"
| "unhandled_nodes (VariableDecl name var_type v) = unhandled_nodes v"
| "unhandled_nodes (Assignment target v) = unhandled_nodes v"
| "unhandled_nodes (BinaryOp left operator right) = unhandled_nodes left @ unhandled_nodes right"
| "unhandled_nodes (Number x) = []"
| "unhandled_nodes (String s) = []"
| "unhandled_nodes (Boolean b) = []"
| "unhandled_nodes (Identifier name) = []"
| "unhandled_nodes (Display v) = unhandled_nodes v"
| "unhandled_nodes (Unhandled cls) = [cls]"

definition generable :: "ASTNode \<Rightarrow> bool" where
  "generable node =
     (set (binary_operators node) \<subseteq> {PLUS, MINUS, MULTIPLY, DIVIDE} \<and> unhandled_nodes node = [])"

subsection \<open>Parser\<close>

record Parser =
  lexer :: Lexer
  current_token :: Token

definition Parser_init :: "Lexer \<Rightarrow> error + Parser" where
  "Parser_init lx =
     bindE (get_next_token lx) (\<lambda>(t, lx'). Inr \<lparr>lexer = lx', current_token = t\<rparr>)"

definition Parser_error :: "Parser \<Rightarrow> string \<Rightarrow> error" where
  "Parser_error p message =
     SyntaxError (message @ '' at line '' @ str_nat (tok_line (current_token p))
                  @ '', column '' @ str_nat (tok_column (current_token p)))"

definition eat :: "Parser \<Rightarrow> TokenType \<Rightarrow> error + Parser" where
  "eat p token_type =
     (if tok_type (current_token p) = token_type
      then bindE (get_next_token (lexer p))
             (\<lambda>(t, lx'). Inr (p\<lparr>lexer := lx', current_token := t\<rparr>))
      else Inl (Parser_error p (''Expected '' @ str_TokenType token_type @ '', got ''
                                @ str_TokenType (tok_type (current_token p)))))"

text \<open>
  The parser's loops stop because every token they eat brings the end of the token
  stream closer: \<open>tokens_left\<close> counts the buffered token unless it is EOF.
\<close>

definition tokens_left :: "Parser \<Rightarrow> nat" where
  "tokens_left p =
     chars_left (lexer p) + (if tok_type (current_token p) = EOF then 0 else 1)"

lemma tokens_left_eat:
  assumes "eat p token_type = Inr p'" and "token_type \<noteq> EOF"
  shows "tokens_left p' < tokens_left p"
proof -
  from assms(1) have ty: "tok_type (current_token p) = token_type"
    by (auto simp: eat_def split: if_splits)
  with assms(1) obtain t lx' where
    nt: "get_next_token (lexer p) = Inr (t, lx')" and
    p': "p' = p\<lparr>lexer := lx', current_token := t\<rparr>"
    by (auto simp: eat_def bindE_def split: sum.splits)
  from get_next_token_chars_left [OF nt] ty assms(2) p' show ?thesis
    by (auto simp: tokens_left_def)
qed

text \<open>
  The expression and statement procedures call one another, so they are defined by
  recursion on a fuel counter, and \<open>None\<close> means the fuel ran out.  The counter goes down
  only after a token has been eaten, so more fuel than \<open>tokens_left\<close> is always enough
  (\<open>parse_program_fuel\<close> below).
\<close>

type_synonym 'a fueled = "(error + 'a) option"

definition bindF :: "'a fueled \<Rightarrow> ('a \<Rightarrow> 'b fueled) \<Rightarrow> 'b fueled" where
  "bindF m f = (case m of None \<Rightarrow> None | Some (Inl e) \<Rightarrow> Some (Inl e) | Some (Inr x) \<Rightarrow> f x)"

function metadata_loop ::
  "string option \<times> string option \<times> string option \<Rightarrow> Parser
   \<Rightarrow> error + (string option \<times> string option \<times> string option) \<times> Parser" where
  "metadata_loop (description, author, date) p =
     (if tok_type (current_token p) = IDENTIFIER then
        (let metadata_type = upper (tok_value (current_token p))
         in bindE (eat p IDENTIFIER) (\<lambda>p1.
            let v = tok_value (current_token p1)
            in bindE (eat p1 STRING) (\<lambda>p2.
               metadata_loop
                 (if metadata_type = ''DESCRIPTION'' then (Some v, author, date)
                  else if metadata_type = ''AUTHOR'' then (description, Some v, date)
                  else if metadata_type = ''DATE'' then (description, author, Some v)
                  else (description, author, date)) p2)))
      else Inr ((description, author, date), p))"
  by pat_completeness auto
termination
proof (relation "measure (\<lambda>(m, p). tokens_left p)", goal_cases)
  case 1
  show ?case by simp
next
  case (2 description author date p metadata_type p1 v p2)
  then have "tokens_left p1 < tokens_left p" "tokens_left p2 < tokens_left p1"
    by (auto intro: tokens_left_eat)
  then show ?case by simp
qed

function params_loop ::
  "(string \<times> string option) list \<Rightarrow> Parser
   \<Rightarrow> error + (string \<times> string option) list \<times> Parser" where
  "params_loop params p =
     (if tok_type (current_token p) \<noteq> RPAREN then
        (let param_name = tok_value (current_token p)
         in bindE (eat p IDENTIFIER) (\<lambda>p1.
            bindE (if tok_type (current_token p1) = COLON
                   then bindE (eat p1 COLON) (\<lambda>p2.
                        let param_type = tok_value (current_token p2)
                        in bindE (eat p2 IDENTIFIER) (\<lambda>p3. Inr (Some param_type, p3)))
                   else Inr (None, p1))
              (\<lambda>(param_type, p4).
                 bindE (if tok_type (current_token p4) = COMMA then eat p4 COMMA else Inr p4)
                   (\<lambda>p5. params_loop (params @ [(param_name, param_type)]) p5))))
      else Inr (params, p))"
  by pat_completeness auto
termination
proof (relation "measure (\<lambda>(params, p). tokens_left p)", goal_cases)
  case 1
  show ?case by simp
next
  case (2 params p param_name p1 x param_type p4 p5)
  from 2 have a: "tokens_left p1 < tokens_left p"
    by (auto intro: tokens_left_eat)
  from 2 have b: "tokens_left p4 \<le> tokens_left p1"
    by (auto simp: bindE_def Let_def split: if_splits sum.splits
             dest!: tokens_left_eat)
  from 2 have c: "tokens_left p5 \<le> tokens_left p4"
    by (auto split: if_splits dest!: tokens_left_eat)
  from a b c show ?case by simp
qed

declare metadata_loop.simps [simp del] params_loop.simps [simp del]

fun parse_expression :: "nat \<Rightarrow> Parser \<Rightarrow> (ASTNode \<times> Parser) fueled"
  and expression_loop :: "nat \<Rightarrow> ASTNode \<Rightarrow> Parser \<Rightarrow> (ASTNode \<times> Parser) fueled"
  and parse_term :: "nat \<Rightarrow> Parser \<Rightarrow> (ASTNode \<times> Parser) fueled"
  and term_loop :: "nat \<Rightarrow> ASTNode \<Rightarrow> Parser \<Rightarrow> (ASTNode \<times> Parser) fueled"
  and parse_factor :: "nat \<Rightarrow> Parser \<Rightarrow> (ASTNode \<times> Parser) fueled"
where
  "parse_expression n p =
     bindF (parse_term n p) (\<lambda>(node, p1). expression_loop n node p1)"
| "expression_loop 0 node p = None"
| "expression_loop (Suc n) node p =
     (if tok_type (current_token p) \<in> {PLUS, MINUS} then
        (let operator = tok_type (current_token p)
         in bindF (Some (eat p operator)) (\<lambda>p1.
            bindF (parse_term n p1) (\<lambda>(right, p2).
            expression_loop n (BinaryOp node operator right) p2)))
      else Some (Inr (node, p)))"
| "parse_term n p =
     bindF (parse_factor n p) (\<lambda>(node, p1). term_loop n node p1)"
| "term_loop 0 node p = None"
| "term_loop (Suc n) node p =
     (if tok_type (current_token p) \<in> {MULTIPLY, DIVIDE} then
        (let operator = tok_type (current_token p)
         in bindF (Some (eat p operator)) (\<lambda>p1.
            bindF (parse_factor n p1) (\<lambda>(right, p2).
            term_loop n (BinaryOp node operator right) p2)))
      else Some (Inr (node, p)))"
| "parse_factor 0 p = None"
| "parse_factor (Suc n) p =
     (let token = current_token p
      in if tok_type token = NUMBER then
           bindF (Some (eat p NUMBER)) (\<lambda>p1.
           bindF (Some (py_float (tok_value token))) (\<lambda>x.
           Some (Inr (Number x, p1))))
         else if tok_type token = STRING then
           bindF (Some (eat p STRING)) (\<lambda>p1. Some (Inr (String (tok_value token), p1)))
         else if tok_type token \<in> {TRUE, FALSE} then
           bindF (Some (eat p (tok_type token))) (\<lambda>p1.
           Some (Inr (Boolean (tok_type token = TRUE), p1)))
         else if tok_type token = IDENTIFIER then
           bindF (Some (eat p IDENTIFIER)) (\<lambda>p1.
           Some (Inr (Identifier (tok_value token), p1)))
         else if tok_type token = LPAREN then
           bindF (Some (eat p LPAREN)) (\<lambda>p1.
           bindF (parse_expression n p1) (\<lambda>(node, p2).
           bindF (Some (eat p2 RPAREN)) (\<lambda>p3. Some (Inr (node, p3)))))
         else Some (Inl (Parser_error p (''Unexpected factor token: ''
                                         @ str_TokenType (tok_type token)))))"

definition parse_display :: "nat \<Rightarrow> Parser \<Rightarrow> (ASTNode \<times> Parser) fueled" where
  "parse_display n p =
     bindF (Some (eat p DISPLAY)) (\<lambda>p1.
     bindF (parse_expression n p1) (\<lambda>(v, p2). Some (Inr (Display v, p2))))"

definition parse_assignment :: "nat \<Rightarrow> Parser \<Rightarrow> (ASTNode \<times> Parser) fueled" where
  "parse_assignment n p =
     (let name = tok_value (current_token p)
      in bindF (Some (eat p IDENTIFIER)) (\<lambda>p1.
         bindF (Some (eat p1 ASSIGN)) (\<lambda>p2.
         bindF (parse_expression n p2) (\<lambda>(v, p3). Some (Inr (Assignment name v, p3))))))"

definition parse_variable_declaration :: "nat \<Rightarrow> Parser \<Rightarrow> (ASTNode \<times> Parser) fueled" where
  "parse_variable_declaration n p =
     (let var_type = tok_value (current_token p)
      in bindF (Some (eat p (tok_type (current_token p)))) (\<lambda>p1.
         let name = tok_value (current_token p1)
         in bindF (Some (eat p1 IDENTIFIER)) (\<lambda>p2.
            bindF (Some (eat p2 ASSIGN)) (\<lambda>p3.
            bindF (parse_expression n p3) (\<lambda>(v, p4).
            Some (Inr (VariableDecl name (Some var_type) v, p4)))))))"

definition parse_return_type :: "Parser \<Rightarrow> error + string option \<times> Parser" where
  "parse_return_type p =
     (if tok_type (current_token p) = RETURN then
        bindE (eat p RETURN) (\<lambda>p1.
        let return_type = tok_value (current_token p1)
        in bindE (eat p1 IDENTIFIER) (\<lambda>p2. Inr (Some return_type, p2)))
      else Inr (None, p))"

fun parse_statement :: "nat \<Rightarrow> Parser \<Rightarrow> (ASTNode option \<times> Parser) fueled"
  and parse_function :: "nat \<Rightarrow> Parser \<Rightarrow> (ASTNode \<times> Parser) fueled"
  and function_body_loop :: "nat \<Rightarrow> ASTNode list \<Rightarrow> Parser \<Rightarrow> (ASTNode list \<times> Parser) fueled"
where
  "parse_statement n p =
     (if tok_type (current_token p) = COMMENT then
        bindF (Some (eat p COMMENT)) (\<lambda>p1. Some (Inr (None, p1)))
      else if tok_type (current_token p) = FUNC then
        bindF (parse_function n p) (\<lambda>(node, p1). Some (Inr (Some node, p1)))
      else if tok_type (current_token p) \<in> {NUM, STR_TYPE, BOOL, LIST} then
        bindF (parse_variable_declaration n p) (\<lambda>(node, p1). Some (Inr (Some node, p1)))
      else if tok_type (current_token p) = IDENTIFIER then
        bindF (parse_assignment n p) (\<lambda>(node, p1). Some (Inr (Some node, p1)))
      else if tok_type (current_token p) = DISPLAY then
        bindF (parse_display n p) (\<lambda>(node, p1). Some (Inr (Some node, p1)))
      else Some (Inl (Parser_error p (''Unexpected token ''
                                      @ str_TokenType (tok_type (current_token p))))))"
| "parse_function 0 p = None"
| "parse_function (Suc n) p =
     bindF (Some (eat p FUNC)) (\<lambda>p1.
     let name = tok_value (current_token p1)
     in bindF (Some (eat p1 IDENTIFIER)) (\<lambda>p2.
        bindF (Some (eat p2 LPAREN)) (\<lambda>p3.
        bindF (Some (params_loop [] p3)) (\<lambda>(params, p4).
        bindF (Some (eat p4 RPAREN)) (\<lambda>p5.
        bindF (Some (parse_return_type p5)) (\<lambda>(return_type, p6).
        bindF (function_body_loop n [] p6) (\<lambda>(body, p7).
        bindF (Some (eat p7 END)) (\<lambda>p8.
        Some (Inr (FunctionDecl name params return_type body, p8))))))))))"
| "function_body_loop 0 body p = None"
| "function_body_loop (Suc n) body p =
     (if tok_type (current_token p) \<noteq> END then
        bindF (parse_statement (Suc n) p) (\<lambda>(statement, p1).
        function_body_loop n
          (case statement of None \<Rightarrow> body | Some node \<Rightarrow> body @ [node]) p1)
      else Some (Inr (body, p)))"

fun program_body_loop :: "nat \<Rightarrow> ASTNode list \<Rightarrow> Parser \<Rightarrow> (ASTNode list \<times> Parser) fueled"
where
  "program_body_loop 0 body p = None"
| "program_body_loop (Suc n) body p =
     (if tok_type (current_token p) \<noteq> PROGRAM then
        (if tok_type (current_token p) = EOF
         then Some (Inl (Parser_error p ''Unexpected end of file''))
         else bindF (parse_statement (Suc n) p) (\<lambda>(statement, p1).
              program_body_loop n
                (case statement of None \<Rightarrow> body | Some node \<Rightarrow> body @ [node]) p1))
      else Some (Inr (body, p)))"

definition parse_program :: "nat \<Rightarrow> Parser \<Rightarrow> (ASTNode \<times> Parser) fueled" where
  "parse_program n p =
     bindF (Some (eat p PROGRAM)) (\<lambda>p1.
     bindF (Some (eat p1 BEGIN)) (\<lambda>p2.
     bindF (Some (metadata_loop (None, None, None) p2)) (\<lambda>((description, author, date), p3).
     bindF (program_body_loop n [] p3) (\<lambda>(body, p4).
     bindF (Some (eat p4 PROGRAM)) (\<lambda>p5.
     bindF (Some (eat p5 END)) (\<lambda>p6.
     Some (Inr (Program description author date body, p6))))))))"

subsection \<open>Code generator\<close>

text \<open>A visitor returns a string or \<^verbatim>\<open>None\<close>; \<open>fstr\<close> is the text an f-string puts for it.\<close>

datatype pyvalue = PyNone | PyStr string

definition fstr :: "pyvalue \<Rightarrow> string" where
  "fstr v = (case v of PyNone \<Rightarrow> ''None'' | PyStr s \<Rightarrow> s)"

record Symbol =
  sym_type :: "string option"
  sym_value :: pyvalue

datatype SymbolTable =
  SymbolTable (symbols: "string \<Rightarrow> Symbol option") (parent: "SymbolTable option")

definition SymbolTable_init :: SymbolTable where
  "SymbolTable_init = SymbolTable Map.empty None"

definition SymbolTable_define ::
  "SymbolTable \<Rightarrow> string \<Rightarrow> string option \<Rightarrow> pyvalue \<Rightarrow> SymbolTable" where
  "SymbolTable_define st name symbol_type v =
     SymbolTable ((symbols st)(name \<mapsto> \<lparr>sym_type = symbol_type, sym_value = v\<rparr>)) (parent st)"

record CodeGenerator =
  symbol_table :: SymbolTable
  output_lines :: "string list"
  indent_level :: int

definition CodeGenerator_init :: CodeGenerator where
  "CodeGenerator_init = \<lparr>symbol_table = SymbolTable_init, output_lines = [], indent_level = 0\<rparr>"

definition indent :: "CodeGenerator \<Rightarrow> CodeGenerator" where
  "indent g = g\<lparr>indent_level := indent_level g + 1\<rparr>"

definition dedent :: "CodeGenerator \<Rightarrow> CodeGenerator" where
  "dedent g = g\<lparr>indent_level := indent_level g - 1\<rparr>"

definition emit :: "CodeGenerator \<Rightarrow> string \<Rightarrow> CodeGenerator" where
  "emit g code =
     g\<lparr>output_lines := output_lines g @ [concat (replicate (nat (indent_level g)) ''    '') @ code]\<rparr>"

text \<open>\<^verbatim>\<open>if x: self.emit(f"...{x}")\<close> for an optional string \<open>x\<close>: nothing for \<^verbatim>\<open>None\<close> and for
  the empty string.\<close>

definition emit_if :: "CodeGenerator \<Rightarrow> string \<Rightarrow> string option \<Rightarrow> CodeGenerator" where
  "emit_if g prefix x =
     (case x of None \<Rightarrow> g | Some s \<Rightarrow> if s \<noteq> [] then emit g (prefix @ s) else g)"

definition op_map :: "TokenType \<Rightarrow> string option" where
  "op_map = [PLUS \<mapsto> ''+'', MINUS \<mapsto> ''-'', MULTIPLY \<mapsto> ''*'', DIVIDE \<mapsto> ''/'']"

fun visit :: "(string \<Rightarrow> string) \<Rightarrow> ASTNode \<Rightarrow> CodeGenerator \<Rightarrow> error + pyvalue \<times> CodeGenerator"
  and visit_each :: "(string \<Rightarrow> string) \<Rightarrow> ASTNode list \<Rightarrow> CodeGenerator \<Rightarrow> error + CodeGenerator"
where
  "visit fr (Program description author date body) g =
     (let g1 = emit g ''# Generated Python code'';
          g2 = emit_if g1 ''# Description: '' description;
          g3 = emit_if g2 ''# Author: '' author;
          g4 = emit_if g3 ''# Date: '' date;
          g5 = emit g4 []
      in bindE (visit_each fr body g5) (\<lambda>g6.
         Inr (PyStr (join ''\<newline>'' (output_lines g6)), g6)))"
| "visit fr (FunctionDecl name params return_type body) g =
     (let ps = join '', '' (map fst params);
          g1 = emit g (''def '' @ name @ ''('' @ ps @ ''):'');
          g2 = indent g1;
          g3 = foldl (\<lambda>h (pname, param_type).
                        emit_if h (''# Parameter '' @ pname @ '': '') param_type) g2 params;
          g4 = emit_if g3 ''# Returns: '' return_type
      in bindE (visit_each fr body g4) (\<lambda>g5.
         Inr (PyNone, emit (dedent g5) [])))"
| "visit fr (VariableDecl name var_type v) g =
     bindE (visit fr v g) (\<lambda>(val, g1).
     Inr (PyNone,
          emit (g1\<lparr>symbol_table := SymbolTable_define (symbol_table g1) name var_type val\<rparr>)
               (name @ '' = '' @ fstr val)))"
| "visit fr (Assignment target v) g =
     bindE (visit fr v g) (\<lambda>(val, g1).
     Inr (PyNone, emit g1 (target @ '' = '' @ fstr val)))"
| "visit fr (BinaryOp left operator right) g =
     bindE (visit fr left g) (\<lambda>(l, g1).
     bindE (visit fr right g1) (\<lambda>(r, g2).
     case op_map operator of
       None \<Rightarrow> Inl (KeyError operator)
     | Some op \<Rightarrow> Inr (PyStr (''('' @ fstr l @ '' '' @ op @ '' '' @ fstr r @ '')''), g2)))"
| "visit fr (Number x) g = Inr (PyStr (str_float fr x), g)"
| "visit fr (String s) g = Inr (PyStr ([CHR 0x22] @ s @ [CHR 0x22]), g)"
| "visit fr (Boolean b) g = Inr (PyStr (if b then ''True'' else ''False''), g)"
| "visit fr (Identifier name) g = Inr (PyStr name, g)"
| "visit fr (Display v) g =
     bindE (visit fr v g) (\<lambda>(val, g1).
     Inr (PyNone, emit g1 (''print('' @ fstr val @ '')'')))"
| "visit fr (Unhandled cls) g = Inl (Exception (''No visit_'' @ cls @ '' method''))"
| "visit_each fr [] g = Inr g"
| "visit_each fr (statement # rest) g =
     bindE (visit fr statement g) (\<lambda>(val, g1). visit_each fr rest g1)"

subsection \<open>The compiler\<close>

text \<open>\<^verbatim>\<open>str(e)\<close> of a caught exception; a \<^verbatim>\<open>KeyError\<close> prints the \<^verbatim>\<open>repr\<close> of its key.\<close>

fun member_value :: "TokenType \<Rightarrow> nat" where
  "member_value PROGRAM = 1" | "member_value BEGIN = 2" | "member_value END = 3"
| "member_value FUNC = 4" | "member_value RETURN = 5" | "member_value IF = 6"
| "member_value THEN = 7" | "member_value ELSE = 8" | "member_value WHILE = 9"
| "member_value FOR = 10" | "member_value DO = 11" | "member_value IN = 12"
| "member_value CLASS = 13" | "member_value TRY = 14" | "member_value EXCEPT = 15"
| "member_value USE = 16" | "member_value DISPLAY = 17" | "member_value NUM = 18"
| "member_value STR_TYPE = 19" | "member_value BOOL = 20" | "member_value LIST = 21"
| "member_value NUMBER = 22" | "member_value STRING = 23" | "member_value TRUE = 24"
| "member_value FALSE = 25" | "member_value PLUS = 26" | "member_value MINUS = 27"
| "member_value MULTIPLY = 28" | "member_value DIVIDE = 29" | "member_value ASSIGN = 30"
| "member_value EQUALS = 31" | "member_value NOT_EQUALS = 32" | "member_value GREATER = 33"
| "member_value LESS = 34" | "member_value GREATER_EQUAL = 35" | "member_value LESS_EQUAL = 36"
| "member_value LPAREN = 37" | "member_value RPAREN = 38" | "member_value LBRACKET = 39"
| "member_value RBRACKET = 40" | "member_value COMMA = 41" | "member_value DOT = 42"
| "member_value COLON = 43" | "member_value IDENTIFIER = 44" | "member_value COMMENT = 45"
| "member_value EOF = 46"

definition str_error :: "error \<Rightarrow> string" where
  "str_error e =
     (case e of
        SyntaxError m \<Rightarrow> m
      | ValueError m \<Rightarrow> m
      | KeyError k \<Rightarrow> ''<'' @ str_TokenType k @ '': '' @ str_nat (member_value k) @ ''>''
      | Exception m \<Rightarrow> m)"

text \<open>
  The compiler object keeps the lexer, parser and generator of its last run.  \<open>compile\<close>
  takes the object as it stands and overwrites each field before reading it.  The body
  of the \<^verbatim>\<open>try\<close> is \<open>pipeline\<close>; the parser gets one unit of fuel more than
  \<open>tokens_left\<close>.
\<close>

record NovaScriptCompiler =
  comp_lexer :: "Lexer option"
  comp_parser :: "Parser option"
  comp_code_generator :: "CodeGenerator option"

definition NovaScriptCompiler_init :: NovaScriptCompiler where
  "NovaScriptCompiler_init =
     \<lparr>comp_lexer = None, comp_parser = None, comp_code_generator = None\<rparr>"

definition pipeline ::
  "(string \<Rightarrow> string) \<Rightarrow> NovaScriptCompiler \<Rightarrow> string \<Rightarrow> pyvalue fueled" where
  "pipeline fr c source_code =
     (let c1 = c\<lparr>comp_lexer := Some (Lexer_init source_code)\<rparr>
      in bindF (Some (Parser_init (the (comp_lexer c1)))) (\<lambda>parser.
         let c2 = c1\<lparr>comp_parser := Some parser\<rparr>
         in bindF (parse_program (Suc (tokens_left parser)) (the (comp_parser c2)))
              (\<lambda>(ast, parser').
                 let c3 = c2\<lparr>comp_code_generator := Some CodeGenerator_init\<rparr>
                 in bindF (Some (visit fr ast (the (comp_code_generator c3))))
                      (\<lambda>(python_code, g). Some (Inr python_code)))))"

definition compile ::
  "(string \<Rightarrow> string) \<Rightarrow> NovaScriptCompiler \<Rightarrow> string \<Rightarrow> pyvalue option" where
  "compile fr c source_code =
     (case pipeline fr c source_code of
        None \<Rightarrow> None
      | Some (Inr python_code) \<Rightarrow> Some python_code
      | Some (Inl e) \<Rightarrow> Some (PyStr (''Compilation error: '' @ str_error e)))"

section \<open>Progress and fuel of the parser\<close>

text \<open>
  \<open>consumes p r\<close>: a successful result \<open>r\<close> of a procedure started in \<open>p\<close> has fewer
  tokens left; \<open>keeps p r\<close>: it has no more tokens left.
\<close>

lemma bindF_weak_cong: "m = m' \<Longrightarrow> bindF m f = bindF m' f"
  by simp

lemma bindE_weak_cong: "m = m' \<Longrightarrow> bindE m f = bindE m' f"
  by simp

lemma bindF_simps:
  "bindF None f = None"
  "bindF (Some (Inl e)) f = Some (Inl e)"
  "bindF (Some (Inr x)) f = f x"
  by (simp_all add: bindF_def)

lemma bindE_simps:
  "bindE (Inl e) f = Inl e"
  "bindE (Inr x) f = f x"
  by (simp_all add: bindE_def)

declare parse_expression.simps [simp del] expression_loop.simps [simp del]
  parse_term.simps [simp del] term_loop.simps [simp del] parse_factor.simps [simp del]
  parse_statement.simps [simp del] parse_function.simps [simp del]
  function_body_loop.simps [simp del] program_body_loop.simps [simp del]

lemma bindF_eq_Some_Inr:
  "bindF m f = Some (Inr y) \<longleftrightarrow> (\<exists>x. m = Some (Inr x) \<and> f x = Some (Inr y))"
  by (auto simp: bindF_def split: option.splits sum.splits)

lemma bindF_eq_None:
  "bindF m f = None \<longleftrightarrow> m = None \<or> (\<exists>x. m = Some (Inr x) \<and> f x = None)"
  by (auto simp: bindF_def split: option.splits sum.splits)

lemma tokens_left_eat_le: "eat p t = Inr p' \<Longrightarrow> t \<noteq> EOF \<Longrightarrow> tokens_left p' \<le> tokens_left p"
  using tokens_left_eat [of p t p'] by simp

definition consumes :: "Parser \<Rightarrow> ('a \<times> Parser) fueled \<Rightarrow> bool" where
  "consumes p r = (case r of Some (Inr (x, p')) \<Rightarrow> tokens_left p' < tokens_left p | _ \<Rightarrow> True)"

definition keeps :: "Parser \<Rightarrow> ('a \<times> Parser) fueled \<Rightarrow> bool" where
  "keeps p r = (case r of Some (Inr (x, p')) \<Rightarrow> tokens_left p' \<le> tokens_left p | _ \<Rightarrow> True)"

lemma consumesI: "(\<And>x p'. r = Some (Inr (x, p')) \<Longrightarrow> tokens_left p' < tokens_left p) \<Longrightarrow> consumes p r"
  by (auto simp: consumes_def split: option.splits sum.splits)

lemma keepsI: "(\<And>x p'. r = Some (Inr (x, p')) \<Longrightarrow> tokens_left p' \<le> tokens_left p) \<Longrightarrow> keeps p r"
  by (auto simp: keeps_def split: option.splits sum.splits)

lemma consumesD: "consumes p r \<Longrightarrow> r = Some (Inr (x, p')) \<Longrightarrow> tokens_left p' < tokens_left p"
  by (simp add: consumes_def)

lemma keepsD: "keeps p r \<Longrightarrow> r = Some (Inr (x, p')) \<Longrightarrow> tokens_left p' \<le> tokens_left p"
  by (simp add: keeps_def)

lemma expression_progress:
  "consumes p (parse_factor n p) \<and> keeps p (term_loop n acc p) \<and> consumes p (parse_term n p)
   \<and> keeps p (expression_loop n acc p) \<and> consumes p (parse_expression n p)"
proof (induction n arbitrary: p acc)
  case 0
  show ?case
    by (simp add: consumes_def keeps_def bindF_simps parse_factor.simps term_loop.simps
          parse_term.simps expression_loop.simps parse_expression.simps)
next
  case (Suc n)
  from Suc have IH_factor: "consumes p (parse_factor n p)" for p by blast
  from Suc have IH_tloop: "keeps p (term_loop n acc p)" for p acc by blast
  from Suc have IH_term: "consumes p (parse_term n p)" for p by blast
  from Suc have IH_eloop: "keeps p (expression_loop n acc p)" for p acc by blast
  from Suc have IH_expr: "consumes p (parse_expression n p)" for p by blast
  have factor: "consumes p (parse_factor (Suc n) p)" for p
  proof (rule consumesI)
    fix x p' assume a: "parse_factor (Suc n) p = Some (Inr (x, p'))"
    show "tokens_left p' < tokens_left p"
    proof (cases "tok_type (current_token p) = LPAREN")
      case True
      with a obtain p1 p2 where e1: "eat p LPAREN = Inr p1"
        and e2: "parse_expression n p1 = Some (Inr (x, p2))"
        and e3: "eat p2 RPAREN = Inr p'"
        by (auto simp: parse_factor.simps Let_def bindF_eq_Some_Inr)
      from consumesD [OF IH_expr e2] tokens_left_eat [OF e1] tokens_left_eat [OF e3]
      show ?thesis by simp
    next
      case False
      with a show ?thesis
        by (auto simp: parse_factor.simps Let_def bindF_eq_Some_Inr split: if_splits
                 dest!: tokens_left_eat)
    qed
  qed
  have tloop: "keeps p (term_loop (Suc n) acc p)" for p acc
  proof (rule keepsI)
    fix x p' assume a: "term_loop (Suc n) acc p = Some (Inr (x, p'))"
    show "tokens_left p' \<le> tokens_left p"
    proof (cases "tok_type (current_token p) \<in> {MULTIPLY, DIVIDE}")
      case True
      with a obtain p1 r p2 where e1: "eat p (tok_type (current_token p)) = Inr p1"
        and e2: "parse_factor n p1 = Some (Inr (r, p2))"
        and e3: "term_loop n (BinaryOp acc (tok_type (current_token p)) r) p2 = Some (Inr (x, p'))"
        by (auto simp: term_loop.simps Let_def bindF_eq_Some_Inr)
      from True have "tok_type (current_token p) \<noteq> EOF" by auto
      from tokens_left_eat [OF e1 this] consumesD [OF IH_factor e2] keepsD [OF IH_tloop e3]
      show ?thesis by simp
    next
      case False
      with a show ?thesis by (simp add: term_loop.simps)
    qed
  qed
  have "term": "consumes p (parse_term (Suc n) p)" for p
  proof (rule consumesI)
    fix x p' assume a: "parse_term (Suc n) p = Some (Inr (x, p'))"
    then obtain y p1 where e1: "parse_factor (Suc n) p = Some (Inr (y, p1))"
      and e2: "term_loop (Suc n) y p1 = Some (Inr (x, p'))"
      by (auto simp: parse_term.simps bindF_eq_Some_Inr)
    from consumesD [OF factor e1] keepsD [OF tloop e2] show "tokens_left p' < tokens_left p"
      by simp
  qed
  have eloop: "keeps p (expression_loop (Suc n) acc p)" for p acc
  proof (rule keepsI)
    fix x p' assume a: "expression_loop (Suc n) acc p = Some (Inr (x, p'))"
    show "tokens_left p' \<le> tokens_left p"
    proof (cases "tok_type (current_token p) \<in> {PLUS, MINUS}")
      case True
      with a obtain p1 r p2 where e1: "eat p (tok_type (current_token p)) = Inr p1"
        and e2: "parse_term n p1 = Some (Inr (r, p2))"
        and e3: "expression_loop n (BinaryOp acc (tok_type (current_token p)) r) p2
                   = Some (Inr (x, p'))"
        by (auto simp: expression_loop.simps Let_def bindF_eq_Some_Inr)
      from True have "tok_type (current_token p) \<noteq> EOF" by auto
      from tokens_left_eat [OF e1 this] consumesD [OF IH_term e2] keepsD [OF IH_eloop e3]
      show ?thesis by simp
    next
      case False
      with a show ?thesis by (simp add: expression_loop.simps)
    qed
  qed
  have expr: "consumes p (parse_expression (Suc n) p)" for p
  proof (rule consumesI)
    fix x p' assume a: "parse_expression (Suc n) p = Some (Inr (x, p'))"
    then obtain y p1 where e1: "parse_term (Suc n) p = Some (Inr (y, p1))"
      and e2: "expression_loop (Suc n) y p1 = Some (Inr (x, p'))"
      by (auto simp: parse_expression.simps bindF_eq_Some_Inr)
    from consumesD [OF "term" e1] keepsD [OF eloop e2] show "tokens_left p' < tokens_left p"
      by simp
  qed
  from factor tloop "term" eloop expr show ?case by blast
qed


lemmas expression_consumes = expression_progress [THEN conjunct2, THEN conjunct2, THEN conjunct2, THEN conjunct2]

lemma parse_expression_tokens_left:
  "parse_expression n p = Some (Inr (x, p')) \<Longrightarrow> tokens_left p' < tokens_left p"
  using expression_progress [of p n] by (auto dest: consumesD)

lemma bindE_eq_Inr: "bindE m f = Inr y \<longleftrightarrow> (\<exists>x. m = Inr x \<and> f x = Inr y)"
  by (cases m) (simp_all add: bindE_def)

lemma parse_display_tokens_left:
  "parse_display n p = Some (Inr (x, p')) \<Longrightarrow> tokens_left p' < tokens_left p"
  by (auto simp: parse_display_def bindF_eq_Some_Inr
           dest!: parse_expression_tokens_left tokens_left_eat)

lemma parse_assignment_tokens_left:
  "parse_assignment n p = Some (Inr (x, p')) \<Longrightarrow> tokens_left p' < tokens_left p"
  by (auto simp: parse_assignment_def Let_def bindF_eq_Some_Inr
           dest!: parse_expression_tokens_left tokens_left_eat)

lemma tokens_left_eat_any: "eat p t = Inr p' \<Longrightarrow> tokens_left p' \<le> tokens_left p"
  using get_next_token_chars_left [of "lexer p"]
  by (auto simp: eat_def bindE_eq_Inr tokens_left_def split: if_splits)

lemma parse_variable_declaration_tokens_left:
  assumes "parse_variable_declaration n p = Some (Inr (x, p'))"
  shows "tokens_left p' < tokens_left p"
proof -
  from assms obtain p1 p2 p3 v where
    e1: "eat p (tok_type (current_token p)) = Inr p1" and
    e2: "eat p1 IDENTIFIER = Inr p2" and e3: "eat p2 ASSIGN = Inr p3" and
    e4: "parse_expression n p3 = Some (Inr (v, p'))"
    by (auto simp: parse_variable_declaration_def Let_def bindF_eq_Some_Inr)
  from tokens_left_eat_any [OF e1] tokens_left_eat [OF e2] tokens_left_eat [OF e3]
    parse_expression_tokens_left [OF e4]
  show ?thesis by simp
qed

lemma parse_return_type_tokens_left:
  "parse_return_type p = Inr (x, p') \<Longrightarrow> tokens_left p' \<le> tokens_left p"
  by (auto simp: parse_return_type_def Let_def bindE_eq_Inr split: if_splits
           dest!: tokens_left_eat)

lemma params_loop_tokens_left:
  "params_loop params p = Inr (x, p') \<Longrightarrow> tokens_left p' \<le> tokens_left p"
proof (induction params p arbitrary: x p' rule: params_loop.induct)
  case (1 params p)
  show ?case
  proof (cases "tok_type (current_token p) \<noteq> RPAREN")
    case False
    with "1.prems" show ?thesis by (simp add: params_loop.simps [of params p])
  next
    case True
    with "1.prems" obtain p1 param_type p4 p5 where
      e1: "eat p IDENTIFIER = Inr p1" and
      e2: "(if tok_type (current_token p1) = COLON
            then bindE (eat p1 COLON) (\<lambda>p2.
                 let param_type = tok_value (current_token p2)
                 in bindE (eat p2 IDENTIFIER) (\<lambda>p3. Inr (Some param_type, p3)))
            else Inr (None, p1)) = Inr (param_type, p4)" and
      e3: "(if tok_type (current_token p4) = COMMA then eat p4 COMMA else Inr p4) = Inr p5" and
      e4: "params_loop (params @ [(tok_value (current_token p), param_type)]) p5 = Inr (x, p')"
      by (auto simp: params_loop.simps [of params p] Let_def bindE_eq_Inr)
    from e2 have "tokens_left p4 \<le> tokens_left p1"
      by (auto simp: bindE_eq_Inr Let_def split: if_splits dest!: tokens_left_eat)
    moreover from e3 have "tokens_left p5 \<le> tokens_left p4"
      by (auto split: if_splits dest!: tokens_left_eat)
    moreover have "tokens_left p' \<le> tokens_left p5"
      by (rule "1.IH" [OF True refl e1 e2 refl e3 e4])
    ultimately show ?thesis using tokens_left_eat [OF e1] by simp
  qed
qed

lemma metadata_loop_tokens_left:
  "metadata_loop m p = Inr (x, p') \<Longrightarrow> tokens_left p' \<le> tokens_left p"
proof (induction m p arbitrary: x p' rule: metadata_loop.induct)
  case (1 description author date p)
  show ?case
  proof (cases "tok_type (current_token p) = IDENTIFIER")
    case False
    with "1.prems" show ?thesis
      by (simp add: metadata_loop.simps [of description author date p])
  next
    case True
    with "1.prems" obtain p1 p2 where
      e1: "eat p IDENTIFIER = Inr p1" and e2: "eat p1 STRING = Inr p2" and
      e3: "metadata_loop
             (if upper (tok_value (current_token p)) = ''DESCRIPTION''
              then (Some (tok_value (current_token p1)), author, date)
              else if upper (tok_value (current_token p)) = ''AUTHOR''
              then (description, Some (tok_value (current_token p1)), date)
              else if upper (tok_value (current_token p)) = ''DATE''
              then (description, author, Some (tok_value (current_token p1)))
              else (description, author, date)) p2 = Inr (x, p')"
      by (auto simp: metadata_loop.simps [of description author date p] Let_def bindE_eq_Inr)
    have "tokens_left p' \<le> tokens_left p2"
      by (rule "1.IH" [OF True refl e1 refl e2 e3])
    with tokens_left_eat [OF e1] tokens_left_eat [OF e2] show ?thesis by simp
  qed
qed


lemma parse_statement_consumes:
  assumes "\<And>q. consumes q (parse_function n q)"
  shows "consumes p (parse_statement n p)"
proof (rule consumesI)
  fix x p' assume a: "parse_statement n p = Some (Inr (x, p'))"
  then consider
      (comment) "eat p COMMENT = Inr p'"
    | (func) node where "parse_function n p = Some (Inr (node, p'))"
    | (var) node where "parse_variable_declaration n p = Some (Inr (node, p'))"
    | (assign) node where "parse_assignment n p = Some (Inr (node, p'))"
    | (display) node where "parse_display n p = Some (Inr (node, p'))"
    by (auto simp: parse_statement.simps bindF_eq_Some_Inr split: if_splits)
  then show "tokens_left p' < tokens_left p"
  proof cases
    case comment
    then show ?thesis by (auto dest: tokens_left_eat)
  next
    case func
    with assms [of p] show ?thesis by (auto dest: consumesD)
  next
    case var
    then show ?thesis by (rule parse_variable_declaration_tokens_left)
  next
    case assign
    then show ?thesis by (rule parse_assignment_tokens_left)
  next
    case display
    then show ?thesis by (rule parse_display_tokens_left)
  qed
qed

lemma statement_progress:
  "consumes p (parse_function n p) \<and> keeps p (function_body_loop n body p)"
proof (induction n arbitrary: p body)
  case 0
  show ?case
    by (simp add: consumes_def keeps_def parse_function.simps function_body_loop.simps)
next
  case (Suc n)
  from Suc have IH_loop: "keeps p (function_body_loop n body p)" for p body by blast
  have func: "consumes p (parse_function (Suc n) p)" for p
  proof (rule consumesI)
    fix x p' assume a: "parse_function (Suc n) p = Some (Inr (x, p'))"
    then obtain p1 p2 p3 params p4 p5 return_type p6 body p7 where
      e1: "eat p FUNC = Inr p1" and e2: "eat p1 IDENTIFIER = Inr p2" and
      e3: "eat p2 LPAREN = Inr p3" and e4: "params_loop [] p3 = Inr (params, p4)" and
      e5: "eat p4 RPAREN = Inr p5" and e6: "parse_return_type p5 = Inr (return_type, p6)" and
      e7: "function_body_loop n [] p6 = Some (Inr (body, p7))" and
      e8: "eat p7 END = Inr p'"
      by (auto simp: parse_function.simps bindF_eq_Some_Inr Let_def)
    from tokens_left_eat [OF e1] tokens_left_eat [OF e2] tokens_left_eat [OF e3]
      params_loop_tokens_left [OF e4] tokens_left_eat [OF e5]
      parse_return_type_tokens_left [OF e6] keepsD [OF IH_loop e7] tokens_left_eat [OF e8]
    show "tokens_left p' < tokens_left p" by simp
  qed
  have loop: "keeps p (function_body_loop (Suc n) body p)" for p body
  proof (rule keepsI)
    fix x p' assume a: "function_body_loop (Suc n) body p = Some (Inr (x, p'))"
    show "tokens_left p' \<le> tokens_left p"
    proof (cases "tok_type (current_token p) \<noteq> END")
      case False
      with a show ?thesis by (simp add: function_body_loop.simps)
    next
      case True
      with a obtain statement p1 where
        e1: "parse_statement (Suc n) p = Some (Inr (statement, p1))" and
        e2: "function_body_loop n (case statement of None \<Rightarrow> body | Some node \<Rightarrow> body @ [node]) p1
               = Some (Inr (x, p'))"
        by (auto simp: function_body_loop.simps bindF_eq_Some_Inr)
      from consumesD [OF parse_statement_consumes e1] func keepsD [OF IH_loop e2]
      show ?thesis by simp
    qed
  qed
  from func loop show ?case by blast
qed

lemma parse_statement_tokens_left:
  "parse_statement n p = Some (Inr (x, p')) \<Longrightarrow> tokens_left p' < tokens_left p"
  using parse_statement_consumes [of n p] statement_progress by (auto dest: consumesD)

lemma program_body_loop_tokens_left:
  "program_body_loop n body p = Some (Inr (x, p')) \<Longrightarrow> tokens_left p' \<le> tokens_left p"
proof (induction n arbitrary: body p)
  case 0
  then show ?case by (simp add: program_body_loop.simps)
next
  case (Suc n)
  show ?case
  proof (cases "tok_type (current_token p) \<noteq> PROGRAM")
    case False
    with Suc.prems show ?thesis by (simp add: program_body_loop.simps)
  next
    case True
    with Suc.prems obtain statement p1 where
      e1: "parse_statement (Suc n) p = Some (Inr (statement, p1))" and
      e2: "program_body_loop n (case statement of None \<Rightarrow> body | Some node \<Rightarrow> body @ [node]) p1
             = Some (Inr (x, p'))"
      by (auto simp: program_body_loop.simps bindF_eq_Some_Inr split: if_splits)
    from parse_statement_tokens_left [OF e1] Suc.IH [OF e2] show ?thesis by simp
  qed
qed

text \<open>More fuel than \<open>tokens_left\<close> is enough: no parsing procedure runs out of it.\<close>

lemma expression_fuel:
  "tokens_left p < n \<Longrightarrow>
   parse_factor n p \<noteq> None \<and> term_loop n acc p \<noteq> None \<and> parse_term n p \<noteq> None
   \<and> expression_loop n acc p \<noteq> None \<and> parse_expression n p \<noteq> None"
proof (induction n arbitrary: p acc)
  case 0
  then show ?case by simp
next
  case (Suc n)
  from Suc.IH have IH_factor: "tokens_left p < n \<Longrightarrow> parse_factor n p \<noteq> None" for p by blast
  from Suc.IH have IH_tloop: "tokens_left p < n \<Longrightarrow> term_loop n acc p \<noteq> None" for p acc by blast
  from Suc.IH have IH_term: "tokens_left p < n \<Longrightarrow> parse_term n p \<noteq> None" for p by blast
  from Suc.IH have IH_eloop: "tokens_left p < n \<Longrightarrow> expression_loop n acc p \<noteq> None" for p acc
    by blast
  from Suc.IH have IH_expr: "tokens_left p < n \<Longrightarrow> parse_expression n p \<noteq> None" for p by blast
  have factor: "parse_factor (Suc n) p \<noteq> None" if "tokens_left p < Suc n" for p
  proof
    assume "parse_factor (Suc n) p = None"
    then obtain p1 where e1: "eat p LPAREN = Inr p1" and e2: "parse_expression n p1 = None"
      by (auto simp: parse_factor.simps Let_def bindF_eq_None split: if_splits)
    from tokens_left_eat [OF e1] that have "tokens_left p1 < n" by simp
    from IH_expr [OF this] e2 show False by simp
  qed
  have tloop: "term_loop (Suc n) acc p \<noteq> None" if "tokens_left p < Suc n" for p acc
  proof
    assume a: "term_loop (Suc n) acc p = None"
    then have op: "tok_type (current_token p) \<in> {MULTIPLY, DIVIDE}"
      by (auto simp: term_loop.simps split: if_splits)
    with a obtain p1 where e1: "eat p (tok_type (current_token p)) = Inr p1" and
      e2: "parse_factor n p1 = None \<or>
           (\<exists>r p2. parse_factor n p1 = Some (Inr (r, p2))
              \<and> term_loop n (BinaryOp acc (tok_type (current_token p)) r) p2 = None)"
      by (auto simp: term_loop.simps Let_def bindF_eq_None)
    from op have "tok_type (current_token p) \<noteq> EOF" by auto
    from tokens_left_eat [OF e1 this] that have less: "tokens_left p1 < n" by simp
    from e2 show False
    proof
      assume "parse_factor n p1 = None"
      with IH_factor [OF less] show False by simp
    next
      assume "\<exists>r p2. parse_factor n p1 = Some (Inr (r, p2))
              \<and> term_loop n (BinaryOp acc (tok_type (current_token p)) r) p2 = None"
      then obtain r p2 where f: "parse_factor n p1 = Some (Inr (r, p2))" and
        l: "term_loop n (BinaryOp acc (tok_type (current_token p)) r) p2 = None" by blast
      from consumesD [OF _ f] expression_progress [of p1 n] less
      have "tokens_left p2 < n" by fastforce
      from IH_tloop [OF this] l show False by blast
    qed
  qed
  have "term": "parse_term (Suc n) p \<noteq> None" if "tokens_left p < Suc n" for p
  proof
    assume "parse_term (Suc n) p = None"
    then have "parse_factor (Suc n) p = None \<or>
       (\<exists>y p1. parse_factor (Suc n) p = Some (Inr (y, p1)) \<and> term_loop (Suc n) y p1 = None)"
      by (auto simp: parse_term.simps bindF_eq_None)
    then show False
    proof
      assume "parse_factor (Suc n) p = None"
      with factor [OF that] show False by simp
    next
      assume "\<exists>y p1. parse_factor (Suc n) p = Some (Inr (y, p1)) \<and> term_loop (Suc n) y p1 = None"
      then obtain y p1 where f: "parse_factor (Suc n) p = Some (Inr (y, p1))" and
        l: "term_loop (Suc n) y p1 = None" by blast
      from consumesD [OF _ f] expression_progress [of p "Suc n"] that
      have "tokens_left p1 < Suc n" by fastforce
      from tloop [OF this] l show False by blast
    qed
  qed
  have eloop: "expression_loop (Suc n) acc p \<noteq> None" if "tokens_left p < Suc n" for p acc
  proof
    assume a: "expression_loop (Suc n) acc p = None"
    then have op: "tok_type (current_token p) \<in> {PLUS, MINUS}"
      by (auto simp: expression_loop.simps split: if_splits)
    with a obtain p1 where e1: "eat p (tok_type (current_token p)) = Inr p1" and
      e2: "parse_term n p1 = None \<or>
           (\<exists>r p2. parse_term n p1 = Some (Inr (r, p2))
              \<and> expression_loop n (BinaryOp acc (tok_type (current_token p)) r) p2 = None)"
      by (auto simp: expression_loop.simps Let_def bindF_eq_None)
    from op have "tok_type (current_token p) \<noteq> EOF" by auto
    from tokens_left_eat [OF e1 this] that have less: "tokens_left p1 < n" by simp
    from e2 show False
    proof
      assume "parse_term n p1 = None"
      with IH_term [OF less] show False by simp
    next
      assume "\<exists>r p2. parse_term n p1 = Some (Inr (r, p2))
              \<and> expression_loop n (BinaryOp acc (tok_type (current_token p)) r) p2 = None"
      then obtain r p2 where f: "parse_term n p1 = Some (Inr (r, p2))" and
        l: "expression_loop n (BinaryOp acc (tok_type (current_token p)) r) p2 = None" by blast
      from consumesD [OF _ f] expression_progress [of p1 n] less
      have "tokens_left p2 < n" by fastforce
      from IH_eloop [OF this] l show False by blast
    qed
  qed
  have expr: "parse_expression (Suc n) p \<noteq> None" if "tokens_left p < Suc n" for p
  proof
    assume "parse_expression (Suc n) p = None"
    then have "parse_term (Suc n) p = None \<or>
       (\<exists>y p1. parse_term (Suc n) p = Some (Inr (y, p1)) \<and> expression_loop (Suc n) y p1 = None)"
      by (auto simp: parse_expression.simps bindF_eq_None)
    then show False
    proof
      assume "parse_term (Suc n) p = None"
      with "term" [OF that] show False by simp
    next
      assume "\<exists>y p1. parse_term (Suc n) p = Some (Inr (y, p1))
                \<and> expression_loop (Suc n) y p1 = None"
      then obtain y p1 where f: "parse_term (Suc n) p = Some (Inr (y, p1))" and
        l: "expression_loop (Suc n) y p1 = None" by blast
      from consumesD [OF _ f] expression_progress [of p "Suc n"] that
      have "tokens_left p1 < Suc n" by fastforce
      from eloop [OF this] l show False by blast
    qed
  qed
  from Suc.prems factor tloop "term" eloop expr show ?case by blast
qed


lemma parse_expression_fuel: "tokens_left p < n \<Longrightarrow> parse_expression n p \<noteq> None"
  using expression_fuel [of p n] by blast

lemma parse_display_fuel:
  assumes "tokens_left p < n"
  shows "parse_display n p \<noteq> None"
proof
  assume "parse_display n p = None"
  then obtain p1 where e1: "eat p DISPLAY = Inr p1" and e2: "parse_expression n p1 = None"
    by (auto simp: parse_display_def bindF_eq_None)
  from tokens_left_eat [OF e1] assms have "tokens_left p1 < n" by simp
  from parse_expression_fuel [OF this] e2 show False by simp
qed

lemma parse_assignment_fuel:
  assumes "tokens_left p < n"
  shows "parse_assignment n p \<noteq> None"
proof
  assume "parse_assignment n p = None"
  then obtain p1 p2 where e1: "eat p IDENTIFIER = Inr p1" and e2: "eat p1 ASSIGN = Inr p2"
    and e3: "parse_expression n p2 = None"
    by (auto simp: parse_assignment_def Let_def bindF_eq_None)
  from tokens_left_eat [OF e1] tokens_left_eat [OF e2] assms have "tokens_left p2 < n" by simp
  from parse_expression_fuel [OF this] e3 show False by simp
qed

lemma parse_variable_declaration_fuel:
  assumes "tokens_left p < n"
  shows "parse_variable_declaration n p \<noteq> None"
proof
  assume "parse_variable_declaration n p = None"
  then obtain p1 p2 p3 where e1: "eat p (tok_type (current_token p)) = Inr p1"
    and e2: "eat p1 IDENTIFIER = Inr p2" and e3: "eat p2 ASSIGN = Inr p3"
    and e4: "parse_expression n p3 = None"
    by (auto simp: parse_variable_declaration_def Let_def bindF_eq_None)
  from tokens_left_eat_any [OF e1] tokens_left_eat [OF e2] tokens_left_eat [OF e3] assms
  have "tokens_left p3 < n" by simp
  from parse_expression_fuel [OF this] e4 show False by simp
qed

lemma parse_statement_fuel:
  assumes "tokens_left p < n" and "parse_function n p \<noteq> None"
  shows "parse_statement n p \<noteq> None"
proof
  assume "parse_statement n p = None"
  then have "parse_function n p = None \<or> parse_variable_declaration n p = None
     \<or> parse_assignment n p = None \<or> parse_display n p = None"
    by (auto simp: parse_statement.simps bindF_eq_None split: if_splits)
  with assms parse_display_fuel [of p n] parse_assignment_fuel [of p n]
    parse_variable_declaration_fuel [of p n]
  show False by auto
qed

lemma statement_fuel:
  "tokens_left p < n \<Longrightarrow>
   parse_function n p \<noteq> None \<and> function_body_loop n body p \<noteq> None"
proof (induction n arbitrary: p body)
  case 0
  then show ?case by simp
next
  case (Suc n)
  from Suc.IH have IH_loop: "tokens_left p < n \<Longrightarrow> function_body_loop n body p \<noteq> None"
    for p body by blast
  have func: "parse_function (Suc n) p \<noteq> None" if "tokens_left p < Suc n" for p
  proof
    assume "parse_function (Suc n) p = None"
    then obtain p1 p2 p3 params p4 p5 return_type p6 where
      e1: "eat p FUNC = Inr p1" and e2: "eat p1 IDENTIFIER = Inr p2" and
      e3: "eat p2 LPAREN = Inr p3" and e4: "params_loop [] p3 = Inr (params, p4)" and
      e5: "eat p4 RPAREN = Inr p5" and e6: "parse_return_type p5 = Inr (return_type, p6)" and
      e7: "function_body_loop n [] p6 = None"
      by (auto simp: parse_function.simps bindF_eq_None Let_def)
    from tokens_left_eat [OF e1] tokens_left_eat [OF e2] tokens_left_eat [OF e3]
      params_loop_tokens_left [OF e4] tokens_left_eat [OF e5]
      parse_return_type_tokens_left [OF e6] that
    have "tokens_left p6 < n" by simp
    from IH_loop [OF this] e7 show False by blast
  qed
  have loop: "function_body_loop (Suc n) body p \<noteq> None" if "tokens_left p < Suc n" for p body
  proof
    assume a: "function_body_loop (Suc n) body p = None"
    then have "parse_statement (Suc n) p = None \<or>
       (\<exists>statement p1. parse_statement (Suc n) p = Some (Inr (statement, p1))
          \<and> function_body_loop n (case statement of None \<Rightarrow> body | Some node \<Rightarrow> body @ [node]) p1
              = None)"
      by (auto simp: function_body_loop.simps bindF_eq_None split: if_splits)
    then show False
    proof
      assume "parse_statement (Suc n) p = None"
      with parse_statement_fuel [OF that func [OF that]] show False by simp
    next
      assume "\<exists>statement p1. parse_statement (Suc n) p = Some (Inr (statement, p1))
          \<and> function_body_loop n (case statement of None \<Rightarrow> body | Some node \<Rightarrow> body @ [node]) p1
              = None"
      then obtain statement p1 where s: "parse_statement (Suc n) p = Some (Inr (statement, p1))"
        and l: "function_body_loop n
                  (case statement of None \<Rightarrow> body | Some node \<Rightarrow> body @ [node]) p1 = None"
        by blast
      from parse_statement_tokens_left [OF s] that have "tokens_left p1 < n" by simp
      from IH_loop [OF this] l show False by blast
    qed
  qed
  from Suc.prems func loop show ?case by blast
qed

lemma parse_statement_enough_fuel:
  "tokens_left p < n \<Longrightarrow> parse_statement n p \<noteq> None"
  using parse_statement_fuel [of p n] statement_fuel [of p n] by blast

lemma program_body_loop_fuel:
  "tokens_left p < n \<Longrightarrow> program_body_loop n body p \<noteq> None"
proof (induction n arbitrary: p body)
  case 0
  then show ?case by simp
next
  case (Suc n)
  show ?case
  proof
    assume "program_body_loop (Suc n) body p = None"
    then have "parse_statement (Suc n) p = None \<or>
       (\<exists>statement p1. parse_statement (Suc n) p = Some (Inr (statement, p1))
          \<and> program_body_loop n (case statement of None \<Rightarrow> body | Some node \<Rightarrow> body @ [node]) p1
              = None)"
      by (auto simp: program_body_loop.simps bindF_eq_None split: if_splits)
    then show False
    proof
      assume "parse_statement (Suc n) p = None"
      with parse_statement_enough_fuel [OF Suc.prems] show False by simp
    next
      assume "\<exists>statement p1. parse_statement (Suc n) p = Some (Inr (statement, p1))
          \<and> program_body_loop n (case statement of None \<Rightarrow> body | Some node \<Rightarrow> body @ [node]) p1
              = None"
      then obtain statement p1 where s: "parse_statement (Suc n) p = Some (Inr (statement, p1))"
        and l: "program_body_loop n
                  (case statement of None \<Rightarrow> body | Some node \<Rightarrow> body @ [node]) p1 = None"
        by blast
      from parse_statement_tokens_left [OF s] Suc.prems have "tokens_left p1 < n" by simp
      from Suc.IH [OF this] l show False by blast
    qed
  qed
qed

lemma parse_program_fuel:
  assumes "tokens_left p < n"
  shows "parse_program n p \<noteq> None"
proof
  assume "parse_program n p = None"
  then obtain p1 p2 m p3 where e1: "eat p PROGRAM = Inr p1" and e2: "eat p1 BEGIN = Inr p2"
    and e3: "metadata_loop (None, None, None) p2 = Inr (m, p3)"
    and e4: "program_body_loop n [] p3 = None"
    by (auto simp: parse_program_def bindF_eq_None)
  from tokens_left_eat [OF e1] tokens_left_eat [OF e2] metadata_loop_tokens_left [OF e3] assms
  have "tokens_left p3 < n" by simp
  from program_body_loop_fuel [OF this] e4 show False by blast
qed

lemma parse_program_is_Program:
  "parse_program n p = Some (Inr (ast, p')) \<Longrightarrow>
   \<exists>description author date body. ast = Program description author date body"
  by (auto simp: parse_program_def bindF_eq_Some_Inr)

lemma visit_Program_value:
  "visit fr (Program description author date body) g = Inr (res, g') \<Longrightarrow>
   res = PyStr (join ''\<newline>'' (output_lines g'))"
  by (auto simp: Let_def bindE_eq_Inr)

lemma pipeline_cases:
  "(\<exists>e. pipeline fr c src = Some (Inl e))
   \<or> (\<exists>parser ast parser' g.
        Parser_init (Lexer_init src) = Inr parser
        \<and> parse_program (Suc (tokens_left parser)) parser = Some (Inr (ast, parser'))
        \<and> visit fr ast CodeGenerator_init = Inr (PyStr (join ''\<newline>'' (output_lines g)), g)
        \<and> pipeline fr c src = Some (Inr (PyStr (join ''\<newline>'' (output_lines g)))))"
proof (cases "Parser_init (Lexer_init src)")
  case (Inl e)
  then show ?thesis by (simp add: pipeline_def bindF_simps)
next
  case (Inr parser)
  have "parse_program (Suc (tokens_left parser)) parser \<noteq> None"
    by (rule parse_program_fuel) simp
  then obtain r where r: "parse_program (Suc (tokens_left parser)) parser = Some r" by blast
  show ?thesis
  proof (cases r)
    case (Inl e)
    with Inr r show ?thesis by (simp add: pipeline_def bindF_simps)
  next
    case (Inr b)
    obtain ast parser' where b: "b = (ast, parser')" by (cases b)
    show ?thesis
    proof (cases "visit fr ast CodeGenerator_init")
      case (Inl e)
      with \<open>Parser_init (Lexer_init src) = Inr parser\<close> r Inr b show ?thesis
        by (simp add: pipeline_def bindF_simps)
    next
      case vis: (Inr d)
      obtain res g where d: "d = (res, g)" by (cases d)
      from r Inr b obtain description author date body where
        "ast = Program description author date body"
        using parse_program_is_Program [of "Suc (tokens_left parser)" parser ast parser'] by auto
      with vis d have "res = PyStr (join ''\<newline>'' (output_lines g))"
        using visit_Program_value by blast
      with \<open>Parser_init (Lexer_init src) = Inr parser\<close> r Inr b vis d show ?thesis
        by (simp add: pipeline_def bindF_simps)
    qed
  qed
qed


section \<open>The generator's indentation level\<close>

lemma indent_level_emit [simp]: "indent_level (emit g s) = indent_level g"
  by (simp add: emit_def)

lemma indent_level_emit_if [simp]: "indent_level (emit_if g s x) = indent_level g"
  by (simp add: emit_if_def split: option.splits)

lemma indent_level_parameter_comments [simp]:
  "indent_level (foldl (\<lambda>h (pname, param_type). emit_if h (f pname) param_type) g params)
   = indent_level g"
  by (induction params arbitrary: g) (auto split: prod.splits)

lemma visit_restores_indent_level:
  "visit fr node g = Inr (res, g') \<Longrightarrow> indent_level g' = indent_level g"
  "visit_each fr nodes g = Inr g'' \<Longrightarrow> indent_level g'' = indent_level g"
proof (induction fr node g and fr nodes g arbitrary: res g' and g''
       rule: visit_visit_each.induct)
  case (1 fr description author date body g)
  from "1.prems" have
    "visit_each fr body
       (emit (emit_if (emit_if (emit_if (emit g ''# Generated Python code'')
          ''# Description: '' description) ''# Author: '' author) ''# Date: '' date) [])
     = Inr g'"
    by (auto simp: bindE_eq_Inr Let_def)
  from "1.IH" [OF refl refl refl refl refl this] show ?case by simp
next
  case (2 fr name params return_type body g)
  from "2.prems" obtain g5 where
    body: "visit_each fr body
       (emit_if (foldl (\<lambda>h (pname, param_type).
                   emit_if h (''# Parameter '' @ pname @ '': '') param_type)
                 (indent (emit g (''def '' @ name @ ''('' @ join '', '' (map fst params) @ ''):'')))
                 params) ''# Returns: '' return_type)
     = Inr g5" and g': "g' = emit (dedent g5) []"
    by (auto simp: bindE_eq_Inr Let_def)
  from "2.IH" [OF refl refl refl refl refl body] g' show ?case
    by (simp add: indent_def dedent_def)
next
  case (3 fr name var_type v g)
  from "3.prems" obtain val g1 where "visit fr v g = Inr (val, g1)"
    and "indent_level g' = indent_level g1"
    by (auto simp: bindE_eq_Inr)
  with "3.IH" show ?case by simp
next
  case (4 fr target v g)
  from "4.prems" obtain val g1 where "visit fr v g = Inr (val, g1)"
    and "indent_level g' = indent_level g1"
    by (auto simp: bindE_eq_Inr)
  with "4.IH" show ?case by simp
next
  case (5 fr left operator right g)
  from "5.prems" obtain l g1 r where
    l: "visit fr left g = Inr (l, g1)" and r: "visit fr right g1 = Inr (r, g')"
    by (auto simp: bindE_eq_Inr split: option.splits)
  from "5.IH"(1) [OF l] "5.IH"(2) [OF l refl r] show ?case by simp
next
  case (10 fr v g)
  from "10.prems" obtain val g1 where "visit fr v g = Inr (val, g1)"
    and "indent_level g' = indent_level g1"
    by (auto simp: bindE_eq_Inr)
  with "10.IH" show ?case by simp
next
  case (13 fr statement rest g)
  from "13.prems" obtain val g1 where
    s: "visit fr statement g = Inr (val, g1)" and r: "visit_each fr rest g1 = Inr g''"
    by (auto simp: bindE_eq_Inr)
  from "13.IH"(1) [OF s] "13.IH"(2) [OF s refl r] show ?case by simp
qed simp_all


section \<open>Trees built by the parser\<close>

text \<open>\<open>yields P r\<close>: a successful result \<open>r\<close> of a parsing procedure satisfies \<open>P\<close>.\<close>

lemma generable_simps [simp]:
  "generable (Program description author date body) = list_all generable body"
  "generable (FunctionDecl name params return_type body) = list_all generable body"
  "generable (VariableDecl name var_type v) = generable v"
  "generable (Assignment target v) = generable v"
  "generable (BinaryOp left operator right) =
     (operator \<in> {PLUS, MINUS, MULTIPLY, DIVIDE} \<and> generable left \<and> generable right)"
  "generable (Number x)" "generable (String s)" "generable (Boolean b)"
  "generable (Identifier name)"
  "generable (Display v) = generable v"
  "\<not> generable (Unhandled cls)"
  by (auto simp: generable_def list_all_iff)

lemma visit_generable:
  "generable node \<Longrightarrow> \<exists>res g'. visit fr node g = Inr (res, g')"
  "list_all generable nodes \<Longrightarrow> \<exists>g'. visit_each fr nodes g = Inr g'"
proof (induction fr node g and fr nodes g rule: visit_visit_each.induct)
  case (1 fr description author date body g)
  then show ?case by (auto simp: Let_def bindE_eq_Inr)
next
  case (2 fr name params return_type body g)
  then show ?case by (auto simp: Let_def bindE_eq_Inr)
next
  case (3 fr name var_type v g)
  then show ?case by (auto simp: bindE_eq_Inr)
next
  case (4 fr target v g)
  then show ?case by (auto simp: bindE_eq_Inr)
next
  case (5 fr left operator right g)
  from "5.prems" have gl: "generable left" and gr: "generable right"
    and op: "operator \<in> {PLUS, MINUS, MULTIPLY, DIVIDE}" by simp_all
  from "5.IH"(1) [OF gl] obtain l g1 where l: "visit fr left g = Inr (l, g1)" by blast
  from "5.IH"(2) [OF l refl gr] obtain r g2 where r: "visit fr right g1 = Inr (r, g2)" by blast
  from op obtain t where "op_map operator = Some t" by (auto simp: op_map_def)
  with l r show ?case by (simp add: bindE_simps)
next
  case (10 fr v g)
  then show ?case by (auto simp: bindE_eq_Inr)
next
  case (13 fr statement rest g)
  from "13.prems" have gs: "generable statement" and grest: "list_all generable rest"
    by simp_all
  from "13.IH"(1) [OF gs] obtain res g1 where s: "visit fr statement g = Inr (res, g1)"
    by blast
  from "13.IH"(2) [OF s refl grest] s show ?case by (simp add: bindE_simps)
qed simp_all


definition yields :: "('a \<Rightarrow> bool) \<Rightarrow> ('a \<times> Parser) fueled \<Rightarrow> bool" where
  "yields P r = (case r of Some (Inr (x, p')) \<Rightarrow> P x | _ \<Rightarrow> True)"

lemma yieldsI: "(\<And>x p'. r = Some (Inr (x, p')) \<Longrightarrow> P x) \<Longrightarrow> yields P r"
  by (auto simp: yields_def split: option.splits sum.splits)

lemma yieldsD: "yields P r \<Longrightarrow> r = Some (Inr (x, p')) \<Longrightarrow> P x"
  by (simp add: yields_def)

lemma expression_generable:
  "yields generable (parse_factor n p)
   \<and> (generable acc \<longrightarrow> yields generable (term_loop n acc p))
   \<and> yields generable (parse_term n p)
   \<and> (generable acc \<longrightarrow> yields generable (expression_loop n acc p))
   \<and> yields generable (parse_expression n p)"
proof (induction n arbitrary: p acc)
  case 0
  show ?case
    by (simp add: yields_def bindF_simps parse_factor.simps term_loop.simps
          parse_term.simps expression_loop.simps parse_expression.simps)
next
  case (Suc n)
  from Suc have IH_factor: "yields generable (parse_factor n p)" for p by blast
  from Suc have IH_tloop: "generable acc \<Longrightarrow> yields generable (term_loop n acc p)" for p acc
    by blast
  from Suc have IH_term: "yields generable (parse_term n p)" for p by blast
  from Suc have IH_eloop: "generable acc \<Longrightarrow> yields generable (expression_loop n acc p)"
    for p acc by blast
  from Suc have IH_expr: "yields generable (parse_expression n p)" for p by blast
  have factor: "yields generable (parse_factor (Suc n) p)" for p
  proof (rule yieldsI)
    fix x p' assume a: "parse_factor (Suc n) p = Some (Inr (x, p'))"
    show "generable x"
    proof (cases "tok_type (current_token p) = LPAREN")
      case True
      with a obtain p1 p2 where "parse_expression n p1 = Some (Inr (x, p2))"
        by (auto simp: parse_factor.simps Let_def bindF_eq_Some_Inr)
      from yieldsD [OF IH_expr this] show ?thesis .
    next
      case False
      with a show ?thesis
        by (auto simp: parse_factor.simps Let_def bindF_eq_Some_Inr split: if_splits)
    qed
  qed
  have tloop: "yields generable (term_loop (Suc n) acc p)" if acc: "generable acc" for p acc
  proof (rule yieldsI)
    fix x p' assume a: "term_loop (Suc n) acc p = Some (Inr (x, p'))"
    show "generable x"
    proof (cases "tok_type (current_token p) \<in> {MULTIPLY, DIVIDE}")
      case True
      with a obtain p1 r p2 where
        e2: "parse_factor n p1 = Some (Inr (r, p2))" and
        e3: "term_loop n (BinaryOp acc (tok_type (current_token p)) r) p2 = Some (Inr (x, p'))"
        by (auto simp: term_loop.simps Let_def bindF_eq_Some_Inr)
      from yieldsD [OF IH_factor e2] acc True
      have "generable (BinaryOp acc (tok_type (current_token p)) r)" by auto
      from yieldsD [OF IH_tloop [OF this] e3] show ?thesis .
    next
      case False
      with a acc show ?thesis by (simp add: term_loop.simps)
    qed
  qed
  have "term": "yields generable (parse_term (Suc n) p)" for p
  proof (rule yieldsI)
    fix x p' assume a: "parse_term (Suc n) p = Some (Inr (x, p'))"
    then obtain y p1 where e1: "parse_factor (Suc n) p = Some (Inr (y, p1))"
      and e2: "term_loop (Suc n) y p1 = Some (Inr (x, p'))"
      by (auto simp: parse_term.simps bindF_eq_Some_Inr)
    from yieldsD [OF tloop [OF yieldsD [OF factor e1]] e2] show "generable x" .
  qed
  have eloop: "yields generable (expression_loop (Suc n) acc p)" if acc: "generable acc"
    for p acc
  proof (rule yieldsI)
    fix x p' assume a: "expression_loop (Suc n) acc p = Some (Inr (x, p'))"
    show "generable x"
    proof (cases "tok_type (current_token p) \<in> {PLUS, MINUS}")
      case True
      with a obtain p1 r p2 where
        e2: "parse_term n p1 = Some (Inr (r, p2))" and
        e3: "expression_loop n (BinaryOp acc (tok_type (current_token p)) r) p2
               = Some (Inr (x, p'))"
        by (auto simp: expression_loop.simps Let_def bindF_eq_Some_Inr)
      from yieldsD [OF IH_term e2] acc True
      have "generable (BinaryOp acc (tok_type (current_token p)) r)" by auto
      from yieldsD [OF IH_eloop [OF this] e3] show ?thesis .
    next
      case False
      with a acc show ?thesis by (simp add: expression_loop.simps)
    qed
  qed
  have expr: "yields generable (parse_expression (Suc n) p)" for p
  proof (rule yieldsI)
    fix x p' assume a: "parse_expression (Suc n) p = Some (Inr (x, p'))"
    then obtain y p1 where e1: "parse_term (Suc n) p = Some (Inr (y, p1))"
      and e2: "expression_loop (Suc n) y p1 = Some (Inr (x, p'))"
      by (auto simp: parse_expression.simps bindF_eq_Some_Inr)
    from yieldsD [OF eloop [OF yieldsD [OF "term" e1]] e2] show "generable x" .
  qed
  from factor tloop "term" eloop expr show ?case by blast
qed

lemma parse_expression_generable:
  "parse_expression n p = Some (Inr (x, p')) \<Longrightarrow> generable x"
  using expression_generable [of n p] by (auto dest: yieldsD)

lemma parse_statement_generable:
  assumes "\<And>q. yields generable (parse_function n q)"
    and "parse_statement n p = Some (Inr (statement, p'))"
  shows "case statement of None \<Rightarrow> True | Some node \<Rightarrow> generable node"
proof -
  from assms(2) consider
      (comment) "statement = None"
    | (func) node where "parse_function n p = Some (Inr (node, p'))" "statement = Some node"
    | (expr) node v q where "parse_expression n q = Some (Inr (v, p'))"
        "statement = Some node" "generable node = generable v"
    by (auto simp: parse_statement.simps bindF_eq_Some_Inr parse_variable_declaration_def
          parse_assignment_def parse_display_def Let_def split: if_splits)
  then show ?thesis
  proof cases
    case comment
    then show ?thesis by simp
  next
    case func
    with assms(1) [of p] show ?thesis by (auto dest: yieldsD)
  next
    case expr
    with parse_expression_generable [OF expr(1)] show ?thesis by simp
  qed
qed

lemma statement_generable:
  "yields generable (parse_function n p)
   \<and> (list_all generable body \<longrightarrow> yields (list_all generable) (function_body_loop n body p))"
proof (induction n arbitrary: p body)
  case 0
  show ?case by (simp add: yields_def parse_function.simps function_body_loop.simps)
next
  case (Suc n)
  from Suc have IH_loop:
    "list_all generable body \<Longrightarrow> yields (list_all generable) (function_body_loop n body p)"
    for p body by blast
  have func: "yields generable (parse_function (Suc n) p)" for p
  proof (rule yieldsI)
    fix x p' assume a: "parse_function (Suc n) p = Some (Inr (x, p'))"
    then obtain name params return_type body p6 p7 where
      e7: "function_body_loop n [] p6 = Some (Inr (body, p7))" and
      x: "x = FunctionDecl name params return_type body"
      by (auto simp: parse_function.simps bindF_eq_Some_Inr Let_def)
    from yieldsD [OF IH_loop e7] x show "generable x" by simp
  qed
  have loop: "yields (list_all generable) (function_body_loop (Suc n) body p)"
    if body: "list_all generable body" for p body
  proof (rule yieldsI)
    fix x p' assume a: "function_body_loop (Suc n) body p = Some (Inr (x, p'))"
    show "list_all generable x"
    proof (cases "tok_type (current_token p) \<noteq> END")
      case False
      with a body show ?thesis by (simp add: function_body_loop.simps)
    next
      case True
      with a obtain statement p1 where
        e1: "parse_statement (Suc n) p = Some (Inr (statement, p1))" and
        e2: "function_body_loop n (case statement of None \<Rightarrow> body | Some node \<Rightarrow> body @ [node]) p1
               = Some (Inr (x, p'))"
        by (auto simp: function_body_loop.simps bindF_eq_Some_Inr)
      from parse_statement_generable [OF func e1] body
      have "list_all generable (case statement of None \<Rightarrow> body | Some node \<Rightarrow> body @ [node])"
        by (auto split: option.splits)
      from yieldsD [OF IH_loop [OF this] e2] show ?thesis .
    qed
  qed
  from func loop show ?case by blast
qed

lemma program_body_loop_generable:
  "program_body_loop n body p = Some (Inr (x, p')) \<Longrightarrow> list_all generable body \<Longrightarrow>
   list_all generable x"
proof (induction n arbitrary: body p)
  case 0
  then show ?case by (simp add: program_body_loop.simps)
next
  case (Suc n)
  show ?case
  proof (cases "tok_type (current_token p) \<noteq> PROGRAM")
    case False
    with Suc.prems show ?thesis by (simp add: program_body_loop.simps)
  next
    case True
    with Suc.prems obtain statement p1 where
      e1: "parse_statement (Suc n) p = Some (Inr (statement, p1))" and
      e2: "program_body_loop n (case statement of None \<Rightarrow> body | Some node \<Rightarrow> body @ [node]) p1
             = Some (Inr (x, p'))"
      by (auto simp: program_body_loop.simps bindF_eq_Some_Inr split: if_splits)
    have "yields generable (parse_function (Suc n) q)" for q
      using statement_generable [of "Suc n" q] by blast
    from parse_statement_generable [OF this e1] Suc.prems(2)
    have "list_all generable (case statement of None \<Rightarrow> body | Some node \<Rightarrow> body @ [node])"
      by (auto split: option.splits)
    from Suc.IH [OF e2 this] show ?thesis .
  qed
qed

lemma parse_program_generable:
  assumes "parse_program n p = Some (Inr (ast, p'))"
  shows "generable ast"
proof -
  from assms obtain description author date body p3 p4 where
    "program_body_loop n [] p3 = Some (Inr (body, p4))"
    "ast = Program description author date body"
    by (auto simp: parse_program_def bindF_eq_Some_Inr)
  with program_body_loop_generable [of n "[]" p3 body p4] show ?thesis by simp
qed

section \<open>Literals and comments that are not closed\<close>

lemma lexer_ok_init: "lexer_ok (Lexer_init src)"
  by (auto simp: lexer_ok_def Lexer_init_def)

lemma lexer_ok_advance: "lexer_ok (advance lx)"
  by (simp add: lexer_ok_def advance_def Let_def)

lemma advance_fields [simp]:
  "source (advance lx) = source lx" "pos (advance lx) = Suc (pos lx)"
  "line (advance lx) = line lx" "column (advance lx) = Suc (column lx)"
  by (simp_all add: advance_def Let_def)

lemma lexer_ok_Some: "lexer_ok lx \<Longrightarrow> current_char lx = Some c \<Longrightarrow>
  pos lx < length (source lx) \<and> source lx ! pos lx = c"
  by (auto simp: lexer_ok_def split: if_splits)

lemma lexer_ok_None: "lexer_ok lx \<Longrightarrow> current_char lx = None \<Longrightarrow> length (source lx) \<le> pos lx"
  by (auto simp: lexer_ok_def split: if_splits)

lemma read_string_loop_unterminated:
  assumes "lexer_ok lx" and "CHR 0x22 \<notin> set (drop (pos lx) (source lx))"
  shows "fst (read_string_loop r lx) = r @ drop (pos lx) (source lx)
    \<and> current_char (snd (read_string_loop r lx)) = None
    \<and> pos (snd (read_string_loop r lx)) = max (pos lx) (length (source lx))
    \<and> line (snd (read_string_loop r lx)) = line lx
    \<and> source (snd (read_string_loop r lx)) = source lx"
  using assms
proof (induction r lx rule: read_string_loop.induct)
  case (1 result lx)
  show ?case
  proof (cases "current_char lx")
    case None
    with lexer_ok_None [OF "1.prems"(1)] show ?thesis
      by (simp add: read_string_loop.simps [of result lx] max_def)
  next
    case (Some c)
    from lexer_ok_Some [OF "1.prems"(1) Some]
    have lt: "pos lx < length (source lx)" and c: "source lx ! pos lx = c" by simp_all
    then have dr: "drop (pos lx) (source lx) = c # drop (Suc (pos lx)) (source lx)"
      using Cons_nth_drop_Suc [of "pos lx" "source lx"] by simp
    with "1.prems"(2) have ne: "c \<noteq> CHR 0x22"
      and rest: "CHR 0x22 \<notin> set (drop (pos (advance lx)) (source (advance lx)))" by auto
    from "1.IH" [OF Some ne lexer_ok_advance rest] Some ne dr lt show ?thesis
      by (simp add: read_string_loop.simps [of result lx] max_def)
  qed
qed

lemma quote_class [simp]:
  "\<not> isspace (CHR 0x22)" "\<not> isdigit (CHR 0x22)" "\<not> isalpha (CHR 0x22)"
  by (simp_all add: isspace_def isdigit_def isalpha_def code_of_def)

lemma get_next_token_unterminated_string:
  assumes ok: "lexer_ok lx" and q: "current_char lx = Some (CHR 0x22)"
    and un: "CHR 0x22 \<notin> set (drop (Suc (pos lx)) (source lx))"
  shows "\<exists>lx'. get_next_token lx
           = Inr (mk_Token STRING (drop (Suc (pos lx)) (source lx)) (line lx) (column lx), lx')
         \<and> pos lx' = length (source lx) \<and> current_char lx' = None"
proof -
  from lexer_ok_Some [OF ok q] have lt: "pos lx < length (source lx)" by simp
  obtain r lx1 where loop: "read_string_loop [] (advance lx) = (r, lx1)"
    by (cases "read_string_loop [] (advance lx)")
  from read_string_loop_unterminated [OF lexer_ok_advance, of lx "[]"] un loop lt
  have r: "r = drop (Suc (pos lx)) (source lx)" and cc: "current_char lx1 = None"
    and p: "pos lx1 = length (source lx)" and l: "line lx1 = line lx"
    by (simp_all add: max_def)
  from loop cc r l have "read_string lx
      = (mk_Token STRING (drop (Suc (pos lx)) (source lx)) (line lx) (column lx), lx1)"
    by (simp add: read_string_def Let_def)
  moreover from q have "get_next_token lx = Inr (read_string lx)"
    by (simp add: get_next_token.simps [of lx] read_comment_def)
  ultimately show ?thesis using cc p by simp
qed


lemma lexer_ok_line_column [simp]:
  "lexer_ok (lx\<lparr>line := l, column := k\<rparr>) = lexer_ok lx"
  by (simp add: lexer_ok_def)

lemma block_comment_loop_unterminated:
  assumes "lexer_ok lx"
    and "\<forall>i. Suc i < length (drop (pos lx) (source lx)) \<longrightarrow>
           \<not> (drop (pos lx) (source lx) ! i = CHR ''*''
              \<and> drop (pos lx) (source lx) ! Suc i = CHR ''/'')"
  shows "fst (block_comment_loop r lx) = r @ drop (pos lx) (source lx)
    \<and> current_char (snd (block_comment_loop r lx)) = None
    \<and> pos (snd (block_comment_loop r lx)) = max (pos lx) (length (source lx))
    \<and> line (snd (block_comment_loop r lx))
        = line lx + length (filter (\<lambda>x. x = CHR ''\<newline>'') (drop (pos lx) (source lx)))
    \<and> source (snd (block_comment_loop r lx)) = source lx"
  using assms
proof (induction r lx rule: block_comment_loop.induct)
  case (1 comment lx)
  show ?case
  proof (cases "current_char lx")
    case None
    with lexer_ok_None [OF "1.prems"(1)] show ?thesis
      by (simp add: block_comment_loop.simps [of comment lx] max_def)
  next
    case (Some c)
    from lexer_ok_Some [OF "1.prems"(1) Some]
    have lt: "pos lx < length (source lx)" and c: "source lx ! pos lx = c" by simp_all
    then have dr: "drop (pos lx) (source lx) = c # drop (Suc (pos lx)) (source lx)"
      using Cons_nth_drop_Suc [of "pos lx" "source lx"] by simp
    have open_: "\<not> (c = CHR ''*'' \<and> peek lx = Some (CHR ''/''))"
    proof
      assume a: "c = CHR ''*'' \<and> peek lx = Some (CHR ''/'')"
      then have n: "Suc (pos lx) < length (source lx)" "source lx ! Suc (pos lx) = CHR ''/''"
        by (auto simp: peek_def Let_def split: if_splits)
      then have "Suc 0 < length (drop (pos lx) (source lx))" by simp
      from "1.prems"(2) [rule_format, OF this] a c n show False by simp
    qed
    let ?lx = "if c = CHR ''\<newline>'' then lx\<lparr>line := line lx + 1, column := 0\<rparr> else lx"
    have ok: "lexer_ok (advance ?lx)" by (rule lexer_ok_advance)
    have src: "source (advance ?lx) = source lx" "pos (advance ?lx) = Suc (pos lx)" by simp_all
    have rest: "\<forall>i. Suc i < length (drop (pos (advance ?lx)) (source (advance ?lx))) \<longrightarrow>
           \<not> (drop (pos (advance ?lx)) (source (advance ?lx)) ! i = CHR ''*''
              \<and> drop (pos (advance ?lx)) (source (advance ?lx)) ! Suc i = CHR ''/'')"
    proof (intro allI impI)
      fix i assume "Suc i < length (drop (pos (advance ?lx)) (source (advance ?lx)))"
      with "1.prems"(2) [rule_format, of "Suc i"] dr src
      show "\<not> (drop (pos (advance ?lx)) (source (advance ?lx)) ! i = CHR ''*''
              \<and> drop (pos (advance ?lx)) (source (advance ?lx)) ! Suc i = CHR ''/'')"
        by simp
    qed
    from "1.IH" [OF Some open_ ok rest] src
    have ih: "fst (block_comment_loop (comment @ [c]) (advance ?lx))
                = (comment @ [c]) @ drop (Suc (pos lx)) (source lx)"
      "current_char (snd (block_comment_loop (comment @ [c]) (advance ?lx))) = None"
      "pos (snd (block_comment_loop (comment @ [c]) (advance ?lx)))
         = max (Suc (pos lx)) (length (source lx))"
      "line (snd (block_comment_loop (comment @ [c]) (advance ?lx)))
         = line (advance ?lx)
           + length (filter (\<lambda>x. x = CHR ''\<newline>'') (drop (Suc (pos lx)) (source lx)))"
      "source (snd (block_comment_loop (comment @ [c]) (advance ?lx))) = source lx"
      by simp_all
    have step: "block_comment_loop comment lx = block_comment_loop (comment @ [c]) (advance ?lx)"
      using Some open_ by (auto simp: block_comment_loop.simps [of comment lx])
    from ih lt show ?thesis
      unfolding step dr by (auto simp: max_def)
  qed
qed

lemma slash_class [simp]:
  "\<not> isspace (CHR ''/'')" "\<not> isdigit (CHR ''/'')" "\<not> isalpha (CHR ''/'')"
  by (simp_all add: isspace_def isdigit_def isalpha_def code_of_def)

lemma get_next_token_unterminated_comment:
  assumes ok: "lexer_ok lx" and s: "current_char lx = Some (CHR ''/'')"
    and st: "peek lx = Some (CHR ''*'')"
    and un: "\<forall>i. Suc i < length (drop (pos lx + 2) (source lx)) \<longrightarrow>
           \<not> (drop (pos lx + 2) (source lx) ! i = CHR ''*''
              \<and> drop (pos lx + 2) (source lx) ! Suc i = CHR ''/'')"
  shows "\<exists>lx'. get_next_token lx
           = Inr (mk_Token COMMENT (drop (pos lx + 2) (source lx))
                   (line lx + length (filter (\<lambda>x. x = CHR ''\<newline>'')
                                        (drop (pos lx + 2) (source lx))))
                   (column lx), lx')
         \<and> pos lx' = length (source lx) \<and> current_char lx' = None"
proof -
  from st have lt: "pos lx + 2 \<le> length (source lx)"
    by (auto simp: peek_def Let_def split: if_splits)
  obtain r lx1 where loop: "block_comment_loop [] (advance (advance lx)) = (r, lx1)"
    by (cases "block_comment_loop [] (advance (advance lx))")
  have un': "\<forall>i. Suc i < length (drop (pos (advance (advance lx))) (source (advance (advance lx))))
       \<longrightarrow> \<not> (drop (pos (advance (advance lx))) (source (advance (advance lx))) ! i = CHR ''*''
              \<and> drop (pos (advance (advance lx))) (source (advance (advance lx))) ! Suc i
                  = CHR ''/'')"
    using un by simp
  from block_comment_loop_unterminated [OF lexer_ok_advance un', of "[]"] loop lt
  have r: "r = drop (pos lx + 2) (source lx)" and cc: "current_char lx1 = None"
    and p: "pos lx1 = length (source lx)"
    and l: "line lx1 = line lx + length (filter (\<lambda>x. x = CHR ''\<newline>'')
                                        (drop (pos lx + 2) (source lx)))"
    by (simp_all add: max_def)
  from s st loop r l have "read_comment lx
      = (Some (mk_Token COMMENT (drop (pos lx + 2) (source lx))
                   (line lx + length (filter (\<lambda>x. x = CHR ''\<newline>'')
                                        (drop (pos lx + 2) (source lx))))
                   (column lx)), lx1)"
    by (simp add: read_comment_def Let_def)
  with s have "get_next_token lx
      = Inr (mk_Token COMMENT (drop (pos lx + 2) (source lx))
                   (line lx + length (filter (\<lambda>x. x = CHR ''\<newline>'')
                                        (drop (pos lx + 2) (source lx))))
                   (column lx), lx1)"
    by (simp add: get_next_token.simps [of lx])
  with cc p show ?thesis by simp
qed

section \<open>Running the model on concrete sources\<close>

text \<open>
  The rules below evaluate the pipeline on a given source text inside the simplifier.
  The weak congruence rules make it evaluate the first argument of a bind, a \<open>let\<close> or
  a \<open>case\<close> before it looks at the continuation.
\<close>

lemmas fuel_numeral =
  expression_loop.simps(2) [of "pred_numeral k" for k, folded numeral_eq_Suc]
  term_loop.simps(2) [of "pred_numeral k" for k, folded numeral_eq_Suc]
  parse_factor.simps(2) [of "pred_numeral k" for k, folded numeral_eq_Suc]
  parse_function.simps(2) [of "pred_numeral k" for k, folded numeral_eq_Suc]
  function_body_loop.simps(2) [of "pred_numeral k" for k, folded numeral_eq_Suc]
  program_body_loop.simps(2) [of "pred_numeral k" for k, folded numeral_eq_Suc]

lemmas lexer_eval =
  Lexer_init_def advance_def peek_def skip_whitespace.simps read_number_loop.simps
  read_number_def read_identifier_loop.simps read_identifier_def read_string_loop.simps
  read_string_def line_comment_loop.simps block_comment_loop.simps read_comment_def
  get_next_token.simps mk_Token_def isspace_def isdigit_def isalpha_def isalnum_def
  code_of_def keywords_table_def invalid_character_def str_nat.simps Let_def
  char_of_def bit_iff_odd_drop_bit

lemmas parser_eval =
  Parser_init_def Parser_error_def eat_def bindF_simps bindE_simps fuel_numeral
  parse_expression.simps expression_loop.simps parse_term.simps term_loop.simps
  parse_factor.simps parse_statement.simps parse_function.simps function_body_loop.simps
  program_body_loop.simps
  metadata_loop.simps params_loop.simps parse_display_def parse_assignment_def
  parse_variable_declaration_def parse_return_type_def parse_program_def str_TokenType_def
  py_float_def float_literal_def decimal_digit_def digits_value_def upper_def
  upper_char_def tokens_left_def chars_left_def

lemmas generator_eval =
  fstr_def SymbolTable_init_def SymbolTable_define_def CodeGenerator_init_def indent_def
  dedent_def emit_def emit_if_def op_map_def str_float_def str_error_def
  NovaScriptCompiler_init_def pipeline_def compile_def

lemmas eval_cong =
  bindF_weak_cong bindE_weak_cong if_weak_cong let_weak_cong option.case_cong_weak
  sum.case_cong_weak prod.case_cong_weak

section \<open>Claims\<close>

subsection \<open>C6: precedence and parentheses in generated expressions\<close>

lemma expression_2_plus_3_times_4:
  "bindF (Some (Parser_init (Lexer_init ''2 + 3 * 4''))) (\<lambda>p.
     bindF (parse_expression (Suc (tokens_left p)) p) (\<lambda>(node, p').
     Some (bindE (visit fr node CodeGenerator_init) (\<lambda>(text, g). Inr text))))
   = Some (Inr (PyStr ''(2.0 + (3.0 * 4.0))''))"
  by (simp add: lexer_eval parser_eval generator_eval cong: eval_cong)

lemma expression_2_plus_3_in_parentheses_times_4:
  "bindF (Some (Parser_init (Lexer_init ''(2 + 3) * 4''))) (\<lambda>p.
     bindF (parse_expression (Suc (tokens_left p)) p) (\<lambda>(node, p').
     Some (bindE (visit fr node CodeGenerator_init) (\<lambda>(text, g). Inr text))))
   = Some (Inr (PyStr ''((2.0 + 3.0) * 4.0)''))"
  by (simp add: lexer_eval parser_eval generator_eval cong: eval_cong)

lemma display_2_plus_3_times_4:
  "compile fr c ''PROGRAM BEGIN\<newline>display 2 + 3 * 4\<newline>PROGRAM END''
   = Some (PyStr ''# Generated Python code\<newline>\<newline>print((2.0 + (3.0 * 4.0)))'')"
  by (simp add: lexer_eval parser_eval generator_eval cong: eval_cong)

lemma display_2_plus_3_in_parentheses_times_4:
  "compile fr c ''PROGRAM BEGIN\<newline>display (2 + 3) * 4\<newline>PROGRAM END''
   = Some (PyStr ''# Generated Python code\<newline>\<newline>print(((2.0 + 3.0) * 4.0))'')"
  by (simp add: lexer_eval parser_eval generator_eval cong: eval_cong)

text \<open>
  Claim C6.  Parsing the expression \<^verbatim>\<open>2 + 3 * 4\<close> and visiting the tree gives the text
  \<^verbatim>\<open>(2.0 + (3.0 * 4.0))\<close>: the product is the right operand of the sum, and the numbers
  print as floats.  Parsing \<^verbatim>\<open>(2 + 3) * 4\<close> gives \<^verbatim>\<open>((2.0 + 3.0) * 4.0)\<close>.  The same
  texts appear in the \<^verbatim>\<open>print\<close> line that \<open>compile\<close> returns for a program displaying
  each expression, whatever the compiler object held before.
\<close>

theorem C6_precedence_and_parentheses:
  "bindF (Some (Parser_init (Lexer_init ''2 + 3 * 4''))) (\<lambda>p.
     bindF (parse_expression (Suc (tokens_left p)) p) (\<lambda>(node, p').
     Some (bindE (visit fr node CodeGenerator_init) (\<lambda>(text, g). Inr text))))
   = Some (Inr (PyStr ''(2.0 + (3.0 * 4.0))''))
   \<and> bindF (Some (Parser_init (Lexer_init ''(2 + 3) * 4''))) (\<lambda>p.
     bindF (parse_expression (Suc (tokens_left p)) p) (\<lambda>(node, p').
     Some (bindE (visit fr node CodeGenerator_init) (\<lambda>(text, g). Inr text))))
   = Some (Inr (PyStr ''((2.0 + 3.0) * 4.0)''))
   \<and> compile fr c ''PROGRAM BEGIN\<newline>display 2 + 3 * 4\<newline>PROGRAM END''
   = Some (PyStr ''# Generated Python code\<newline>\<newline>print((2.0 + (3.0 * 4.0)))'')
   \<and> compile fr c ''PROGRAM BEGIN\<newline>display (2 + 3) * 4\<newline>PROGRAM END''
   = Some (PyStr ''# Generated Python code\<newline>\<newline>print(((2.0 + 3.0) * 4.0))'')"
  using expression_2_plus_3_times_4 [of fr]
    expression_2_plus_3_in_parentheses_times_4 [of fr]
    display_2_plus_3_times_4 [of fr c]
    display_2_plus_3_in_parentheses_times_4 [of fr c]
  by (intro conjI)

subsection \<open>C3: an assignment as the first statement\<close>

text \<open>
  Claim C3 says that the metadata loop leaves an IDENTIFIER that is not followed by a
  STRING to the statement parser.  The loop of \<open>parse_program\<close> tests only that the current
  token is an IDENTIFIER; it then eats it and demands a STRING.  On a program whose first
  statement is the assignment \<^verbatim>\<open>x = 1\<close> the compiler therefore returns an error text
  instead of generated code.
\<close>

theorem C3_assignment_first_is_rejected:
  "compile fr c ''PROGRAM BEGIN\<newline>x = 1\<newline>PROGRAM END''
   = Some (PyStr ''Compilation error: Expected TokenType.STRING, got TokenType.ASSIGN at line 2, column 3'')"
  by (simp add: lexer_eval parser_eval generator_eval cong: eval_cong)

subsection \<open>C5: end of input inside a body\<close>

text \<open>
  Claim C5 says that both body loops report an unexpected end of file when the input ends
  before their closing keyword.  The program-body loop does (second equation).  The
  function-body loop has no test for EOF: it hands the EOF token to \<open>parse_statement\<close>,
  which reports an unexpected token (first equation).
\<close>

theorem C5_function_body_at_end_of_input:
  "compile fr c ''PROGRAM BEGIN\<newline>func f()\<newline>display 1''
   = Some (PyStr ''Compilation error: Unexpected token TokenType.EOF at line 3, column 10'')
   \<and> compile fr c ''PROGRAM BEGIN\<newline>display 1''
   = Some (PyStr ''Compilation error: Unexpected end of file at line 2, column 10'')"
  by (simp add: lexer_eval parser_eval generator_eval cong: eval_cong)

subsection \<open>C1: compile always returns a text\<close>

text \<open>
  Claim C1.  For every source text, and whatever the compiler object held before,
  \<open>compile\<close> returns (the parser never runs out of fuel) and what it returns is a string.
  Either a stage failed with an error \<open>e\<close> and the string is \<^verbatim>\<open>Compilation error: \<close>
  followed by the message of \<open>e\<close>; or lexing and parsing produced a tree, the generator
  visited all of it, and the string is the join of every line the generator had emitted
  when it finished.
\<close>

theorem C1_compile_always_returns:
  "\<exists>out. compile fr c src = Some (PyStr out)
     \<and> ((\<exists>e. pipeline fr c src = Some (Inl e) \<and> out = ''Compilation error: '' @ str_error e)
        \<or> (\<exists>parser ast parser' g.
              Parser_init (Lexer_init src) = Inr parser
              \<and> parse_program (Suc (tokens_left parser)) parser = Some (Inr (ast, parser'))
              \<and> visit fr ast CodeGenerator_init = Inr (PyStr out, g)
              \<and> out = join ''\<newline>'' (output_lines g)))"
  using pipeline_cases [of fr c src]
  by (auto simp: compile_def)

subsection \<open>C8: compile is deterministic\<close>

lemma pipeline_independent: "pipeline fr c src = pipeline fr c' src"
  by (simp add: pipeline_def Let_def)

text \<open>
  Claim C8.  The text \<open>compile\<close> returns depends on the source text alone: two calls on the
  same source return the same text whatever the compiler object holds at each call, in
  particular when the second call finds what the first one left.
\<close>

theorem C8_compile_deterministic: "compile fr c src = compile fr c' src"
  by (simp add: compile_def pipeline_independent [of fr c src c'])

subsection \<open>C9: operator tags of parsed trees\<close>

text \<open>
  Claim C9.  In every tree that \<open>parse_program\<close> returns, each \<open>BinaryOp\<close> node carries
  one of the tags PLUS, MINUS, MULTIPLY, DIVIDE.  Hence visiting the tree finds every
  operator in the table: the visit succeeds, from any generator state, and in particular
  never ends in the \<^verbatim>\<open>KeyError\<close> of the lookup.
\<close>

theorem C9_binary_operators_known:
  "parse_program n p = Some (Inr (ast, p')) \<Longrightarrow>
   set (binary_operators ast) \<subseteq> {PLUS, MINUS, MULTIPLY, DIVIDE}
   \<and> (\<exists>res g'. visit fr ast g = Inr (res, g'))
   \<and> visit fr ast g \<noteq> Inl (KeyError k)"
proof -
  assume a: "parse_program n p = Some (Inr (ast, p'))"
  have gen: "generable ast" by (rule parse_program_generable [OF a])
  from visit_generable(1) [OF gen, of fr g] gen show ?thesis
    by (auto simp: generable_def)
qed

lemma parsed_display:
  "bindF (Some (Parser_init (Lexer_init ''PROGRAM BEGIN\<newline>display 1 + 2 * 3\<newline>PROGRAM END'')))
     (\<lambda>p. bindF (parse_program (Suc (tokens_left p)) p) (\<lambda>(ast, p'). Some (Inr ast)))
   = Some (Inr (Program None None None
        [Display (BinaryOp (Number (Whole 1)) PLUS
                   (BinaryOp (Number (Whole 2)) MULTIPLY (Number (Whole 3))))]))"
  by (simp add: lexer_eval parser_eval cong: eval_cong)

theorem C9_binary_operators_known_witness:
  "\<exists>p ast p'.
     Parser_init (Lexer_init ''PROGRAM BEGIN\<newline>display 1 + 2 * 3\<newline>PROGRAM END'') = Inr p
     \<and> parse_program (Suc (tokens_left p)) p = Some (Inr (ast, p'))
     \<and> ast = Program None None None
        [Display (BinaryOp (Number (Whole 1)) PLUS
                   (BinaryOp (Number (Whole 2)) MULTIPLY (Number (Whole 3))))]
     \<and> set (binary_operators ast) \<subseteq> {PLUS, MINUS, MULTIPLY, DIVIDE}
     \<and> (\<exists>res g'. visit id ast CodeGenerator_init = Inr (res, g'))
     \<and> visit id ast CodeGenerator_init \<noteq> Inl (KeyError PLUS)"
proof -
  from parsed_display obtain p ast p' where
    p: "Parser_init (Lexer_init ''PROGRAM BEGIN\<newline>display 1 + 2 * 3\<newline>PROGRAM END'') = Inr p"
    and a: "parse_program (Suc (tokens_left p)) p = Some (Inr (ast, p'))"
    and ast: "ast = Program None None None
        [Display (BinaryOp (Number (Whole 1)) PLUS
                   (BinaryOp (Number (Whole 2)) MULTIPLY (Number (Whole 3))))]"
    by (auto simp: bindF_eq_Some_Inr)
  from C9_binary_operators_known [OF a, of id CodeGenerator_init PLUS] p a ast show ?thesis by blast
qed

subsection \<open>C10: the indentation level around a visit\<close>

text \<open>
  Claim C10.  A visit that completes leaves \<open>indent_level\<close> as it found it, for every kind
  of node.  A function declaration visits its body one level deeper: the body starts and
  ends at the level of the declaration plus one, and the level is taken back before the
  closing blank line is emitted.
\<close>

theorem C10_indent_level_restored:
  "(visit fr node g = Inr (res, g') \<longrightarrow> indent_level g' = indent_level g)
   \<and> (visit fr (FunctionDecl name params return_type body) g = Inr (res, g') \<longrightarrow>
        (\<exists>g4 g5. indent_level g4 = indent_level g + 1 \<and> visit_each fr body g4 = Inr g5
           \<and> indent_level g5 = indent_level g + 1 \<and> g' = emit (dedent g5) []))"
proof (intro conjI impI)
  assume "visit fr node g = Inr (res, g')"
  then show "indent_level g' = indent_level g" by (rule visit_restores_indent_level(1))
next
  assume "visit fr (FunctionDecl name params return_type body) g = Inr (res, g')"
  then obtain g5 where
    body: "visit_each fr body
       (emit_if (foldl (\<lambda>h (pname, param_type).
                   emit_if h (''# Parameter '' @ pname @ '': '') param_type)
                 (indent (emit g (''def '' @ name @ ''('' @ join '', '' (map fst params) @ ''):'')))
                 params) ''# Returns: '' return_type)
     = Inr g5" and g': "g' = emit (dedent g5) []"
    by (auto simp: bindE_eq_Inr Let_def)
  have start: "indent_level
       (emit_if (foldl (\<lambda>h (pname, param_type).
                   emit_if h (''# Parameter '' @ pname @ '': '') param_type)
                 (indent (emit g (''def '' @ name @ ''('' @ join '', '' (map fst params) @ ''):'')))
                 params) ''# Returns: '' return_type)
     = indent_level g + 1"
    by (simp add: indent_def)
  from visit_restores_indent_level(2) [OF body] start
  have "indent_level g5 = indent_level g + 1" by simp
  with body g' start show "\<exists>g4 g5. indent_level g4 = indent_level g + 1
     \<and> visit_each fr body g4 = Inr g5 \<and> indent_level g5 = indent_level g + 1
     \<and> g' = emit (dedent g5) []"
    by blast
qed

lemma visit_function_f:
  "visit id (FunctionDecl ''f'' [(''a'', None)] None [Display (Identifier ''a'')])
     CodeGenerator_init
   = Inr (PyNone, \<lparr>symbol_table = SymbolTable_init,
                   output_lines = [''def f(a):'', ''    print(a)'', []], indent_level = 0\<rparr>)"
  by (simp add: generator_eval bindE_simps)

theorem C10_indent_level_restored_witness:
  "visit id (FunctionDecl ''f'' [(''a'', None)] None [Display (Identifier ''a'')])
     CodeGenerator_init
   = Inr (PyNone, \<lparr>symbol_table = SymbolTable_init,
                   output_lines = [''def f(a):'', ''    print(a)'', []], indent_level = 0\<rparr>)
   \<and> indent_level \<lparr>symbol_table = SymbolTable_init,
                   output_lines = [''def f(a):'', ''    print(a)'', []], indent_level = 0\<rparr>
       = indent_level CodeGenerator_init
   \<and> (\<exists>g4 g5. indent_level g4 = indent_level CodeGenerator_init + 1
         \<and> visit_each id [Display (Identifier ''a'')] g4 = Inr g5
         \<and> indent_level g5 = indent_level CodeGenerator_init + 1
         \<and> \<lparr>symbol_table = SymbolTable_init,
             output_lines = [''def f(a):'', ''    print(a)'', []], indent_level = 0\<rparr>
            = emit (dedent g5) [])"
  using C10_indent_level_restored
    [of id "FunctionDecl ''f'' [(''a'', None)] None [Display (Identifier ''a'')]"
        CodeGenerator_init PyNone
        "\<lparr>symbol_table = SymbolTable_init,
          output_lines = [''def f(a):'', ''    print(a)'', []], indent_level = 0\<rparr>"
        "''f''" "[(''a'', None)]" None "[Display (Identifier ''a'')]"]
    visit_function_f
  by blast

subsection \<open>C7: unterminated strings and block comments\<close>

text \<open>
  Claim C7.  Take the lexer at any position of any source (the cursor invariant holding).
  If the current character opens a string and no double quote follows, \<open>get_next_token\<close>
  returns a STRING token holding all the remaining characters, and the lexer is left at
  the end of the input.  If the current characters open a block comment and no \<^verbatim>\<open>*/\<close>
  follows, it returns a COMMENT token holding all the remaining characters, and the lexer
  is left at the end of the input.  In both cases the result is a token, not an error.
\<close>

theorem C7_unterminated_literals:
  "lexer_ok lx \<Longrightarrow>
   (current_char lx = Some (CHR 0x22)
      \<and> CHR 0x22 \<notin> set (drop (Suc (pos lx)) (source lx))
    \<longrightarrow> (\<exists>lx'. get_next_token lx
              = Inr (mk_Token STRING (drop (Suc (pos lx)) (source lx)) (line lx) (column lx), lx')
            \<and> pos lx' = length (source lx) \<and> current_char lx' = None))
   \<and> (current_char lx = Some (CHR ''/'') \<and> peek lx = Some (CHR ''*'')
      \<and> (\<forall>i. Suc i < length (drop (pos lx + 2) (source lx)) \<longrightarrow>
             \<not> (drop (pos lx + 2) (source lx) ! i = CHR ''*''
                \<and> drop (pos lx + 2) (source lx) ! Suc i = CHR ''/''))
    \<longrightarrow> (\<exists>lx'. get_next_token lx
              = Inr (mk_Token COMMENT (drop (pos lx + 2) (source lx))
                      (line lx + length (filter (\<lambda>x. x = CHR ''\<newline>'')
                                           (drop (pos lx + 2) (source lx))))
                      (column lx), lx')
            \<and> pos lx' = length (source lx) \<and> current_char lx' = None))"
  using get_next_token_unterminated_string [of lx] get_next_token_unterminated_comment [of lx]
  by blast

theorem C7_unterminated_literals_witness:
  "lexer_ok (Lexer_init (CHR 0x22 # ''ab c''))
   \<and> (\<exists>lx'. get_next_token (Lexer_init (CHR 0x22 # ''ab c''))
              = Inr (mk_Token STRING ''ab c'' 1 1, lx')
        \<and> pos lx' = 5 \<and> current_char lx' = None)
   \<and> lexer_ok (Lexer_init ''/* a\<newline>*b'')
   \<and> (\<exists>lx'. get_next_token (Lexer_init ''/* a\<newline>*b'')
              = Inr (mk_Token COMMENT '' a\<newline>*b'' 2 1, lx')
        \<and> pos lx' = 7 \<and> current_char lx' = None)"
proof -
  have s: "current_char (Lexer_init (CHR 0x22 # ''ab c'')) = Some (CHR 0x22)
      \<and> CHR 0x22 \<notin> set (drop (Suc (pos (Lexer_init (CHR 0x22 # ''ab c''))))
                            (source (Lexer_init (CHR 0x22 # ''ab c''))))"
    by (simp add: Lexer_init_def)
  have c: "current_char (Lexer_init ''/* a\<newline>*b'') = Some (CHR ''/'')
      \<and> peek (Lexer_init ''/* a\<newline>*b'') = Some (CHR ''*'')
      \<and> (\<forall>i. Suc i < length (drop (pos (Lexer_init ''/* a\<newline>*b'') + 2)
                               (source (Lexer_init ''/* a\<newline>*b''))) \<longrightarrow>
             \<not> (drop (pos (Lexer_init ''/* a\<newline>*b'') + 2)
                    (source (Lexer_init ''/* a\<newline>*b'')) ! i = CHR ''*''
                \<and> drop (pos (Lexer_init ''/* a\<newline>*b'') + 2)
                    (source (Lexer_init ''/* a\<newline>*b'')) ! Suc i = CHR ''/''))"
    by (auto simp: Lexer_init_def peek_def less_Suc_eq nth_Cons')
  from C7_unterminated_literals [OF lexer_ok_init, of "CHR 0x22 # ''ab c''"] s
  have 1: "\<exists>lx'. get_next_token (Lexer_init (CHR 0x22 # ''ab c''))
              = Inr (mk_Token STRING ''ab c'' 1 1, lx')
        \<and> pos lx' = 5 \<and> current_char lx' = None"
    by (simp add: Lexer_init_def eval_nat_numeral)
  from C7_unterminated_literals [OF lexer_ok_init, of "''/* a\<newline>*b''"] c
  have 2: "\<exists>lx'. get_next_token (Lexer_init ''/* a\<newline>*b'')
              = Inr (mk_Token COMMENT '' a\<newline>*b'' 2 1, lx')
        \<and> pos lx' = 7 \<and> current_char lx' = None"
    by (simp add: Lexer_init_def eval_nat_numeral)
  from 1 2 lexer_ok_init show ?thesis by blast
qed

end
